theory Spec2Isabelle
  imports Complex_Main "HOL-Library.FSet"
begin

section \<open>Data model\<close>

text \<open>
  The program is \<^verbatim>\<open>pagerank.py\<close>. Its numbers are Python floats; the development works in
  exact arithmetic, so every number is a \<^typ>\<open>real\<close> and \<^verbatim>\<open>/\<close> is exact division that
  raises \<^verbatim>\<open>ZeroDivisionError\<close> on a zero divisor. This is the program up to rounding; the
  statements proved about it are the ones that rounding does not decide. Where a statement
  depends on rounding, the transition model is given a second time, with every
  floating-point operation rounded (section \<open>The transition model in floating point\<close>).

  A Python \<^verbatim>\<open>dict\<close> keeps its keys in insertion order and the program iterates over
  dicts, so a dict is an association list; a well-formed dict has distinct keys
  (\<open>distinct (keys d)\<close>). A Python \<^verbatim>\<open>set\<close> is a finite set; the program only asks a set
  for membership, its size and whether it is empty.
\<close>

datatype py_error = KeyError | ZeroDivisionError | IndexError | ValueError | OSError

type_synonym ('k, 'v) dict = "('k \<times> 'v) list"

type_synonym 'p corpus = "('p, 'p fset) dict"

type_synonym 'p ranks = "('p, real) dict"

definition keys :: "('k, 'v) dict \<Rightarrow> 'k list" where
  "keys d = map fst d"

definition dict_values :: "('k, 'v) dict \<Rightarrow> 'v list" where
  "dict_values d = map snd d"

text \<open>\<^verbatim>\<open>d[k]\<close>: the value stored under \<open>k\<close>, or \<^verbatim>\<open>KeyError\<close>.\<close>

definition dict_get :: "('k, 'v) dict \<Rightarrow> 'k \<Rightarrow> py_error + 'v" where
  "dict_get d k = (case map_of d k of None \<Rightarrow> Inl KeyError | Some v \<Rightarrow> Inr v)"

text \<open>\<^verbatim>\<open>d[k] = v\<close>: an existing key keeps its position, a new key goes to the end.\<close>

fun dict_set :: "('k, 'v) dict \<Rightarrow> 'k \<Rightarrow> 'v \<Rightarrow> ('k, 'v) dict" where
  "dict_set [] k v = [(k, v)]"
| "dict_set ((k', v') # d) k v =
     (if k' = k then (k, v) # d else (k', v') # dict_set d k v)"

text \<open>\<^verbatim>\<open>a / b\<close> on numbers.\<close>

definition truediv :: "real \<Rightarrow> real \<Rightarrow> py_error + real" where
  "truediv a b = (if b = 0 then Inl ZeroDivisionError else Inr (a / b))"

section \<open>The transition model\<close>

text \<open>
  \<^verbatim>\<open>
  for p in corpus:
      probabilities[p] = (1 - damping_factor) / total_pages
      if p in linked_pages:
          probabilities[p] += damping_factor / num_links
  \<close>
  The first argument is the list of keys still to visit.
\<close>

fun linked_loop ::
  "'p list \<Rightarrow> 'p fset \<Rightarrow> real \<Rightarrow> nat \<Rightarrow> nat \<Rightarrow> 'p ranks \<Rightarrow> py_error + 'p ranks" where
  "linked_loop [] linked_pages damping_factor total_pages num_links probabilities =
     Inr probabilities"
| "linked_loop (p # ps) linked_pages damping_factor total_pages num_links probabilities =
     (case truediv (1 - damping_factor) (real total_pages) of
        Inl e \<Rightarrow> Inl e
      | Inr base \<Rightarrow>
          (let probabilities1 = dict_set probabilities p base in
           if p |\<in>| linked_pages then
             (case dict_get probabilities1 p of
                Inl e \<Rightarrow> Inl e
              | Inr cur \<Rightarrow>
                  (case truediv damping_factor (real num_links) of
                     Inl e \<Rightarrow> Inl e
                   | Inr inc \<Rightarrow>
                       linked_loop ps linked_pages damping_factor total_pages num_links
                         (dict_set probabilities1 p (cur + inc))))
           else
             linked_loop ps linked_pages damping_factor total_pages num_links probabilities1))"

text \<open>
  \<^verbatim>\<open>
  for p in corpus:
      probabilities[p] = 1 / total_pages
  \<close>
\<close>

fun uniform_loop :: "'p list \<Rightarrow> nat \<Rightarrow> 'p ranks \<Rightarrow> py_error + 'p ranks" where
  "uniform_loop [] total_pages probabilities = Inr probabilities"
| "uniform_loop (p # ps) total_pages probabilities =
     (case truediv 1 (real total_pages) of
        Inl e \<Rightarrow> Inl e
      | Inr u \<Rightarrow> uniform_loop ps total_pages (dict_set probabilities p u))"

definition transition_model :: "'p corpus \<Rightarrow> 'p \<Rightarrow> real \<Rightarrow> py_error + 'p ranks" where
  "transition_model corpus page damping_factor =
     (let total_pages = length corpus in
      case dict_get corpus page of
        Inl e \<Rightarrow> Inl e
      | Inr linked_pages \<Rightarrow>
          if linked_pages \<noteq> {||} then
            linked_loop (keys corpus) linked_pages damping_factor total_pages
              (fcard linked_pages) []
          else
            uniform_loop (keys corpus) total_pages [])"

section \<open>The random source\<close>

text \<open>
  The generator of the standard library is a stream of draws: \<open>rng k\<close> is the value in
  \<open>[0, 1)\<close> that the \<open>k\<close>-th request obtains. \<^verbatim>\<open>random.choice(seq)\<close> picks
  \<^verbatim>\<open>seq[floor(u * len(seq))]\<close> and raises \<^verbatim>\<open>IndexError\<close> on an empty sequence.
\<close>

definition random_choice :: "'a list \<Rightarrow> real \<Rightarrow> py_error + 'a" where
  "random_choice seq u =
     (if seq = [] then Inl IndexError
      else (let i = nat \<lfloor>u * real (length seq)\<rfloor> in
            if i < length seq then Inr (seq ! i) else Inl IndexError))"

text \<open>\<^verbatim>\<open>itertools.accumulate\<close>: the running sums of a list.\<close>

fun accumulate_from :: "real \<Rightarrow> real list \<Rightarrow> real list" where
  "accumulate_from acc [] = []"
| "accumulate_from acc (w # ws) = (acc + w) # accumulate_from (acc + w) ws"

definition accumulate :: "real list \<Rightarrow> real list" where
  "accumulate ws = (case ws of [] \<Rightarrow> [] | w # ws' \<Rightarrow> w # accumulate_from w ws')"

text \<open>
  \<^verbatim>\<open>bisect.bisect_right(a, x, lo, hi)\<close>:
  \<^verbatim>\<open>
  while lo < hi:
      mid = (lo + hi) // 2
      if x < a[mid]: hi = mid
      else: lo = mid + 1
  return lo
  \<close>
\<close>

function bisect :: "real list \<Rightarrow> real \<Rightarrow> nat \<Rightarrow> nat \<Rightarrow> nat" where
  "bisect a x lo hi =
     (if lo < hi then
        (if x < a ! ((lo + hi) div 2) then bisect a x lo ((lo + hi) div 2)
         else bisect a x ((lo + hi) div 2 + 1) hi)
      else lo)"
  by pat_completeness auto

termination
  by (relation "measure (\<lambda>(a, x, lo, hi). hi - lo)") auto

declare bisect.simps [simp del]

text \<open>
  \<^verbatim>\<open>random.choices(population, weights, k=1)[0]\<close>, as the standard library computes it:
  \<^verbatim>\<open>
  n = len(population)
  cum_weights = list(accumulate(weights))
  if len(cum_weights) != n: raise ValueError
  total = cum_weights[-1] + 0.0
  if total <= 0.0: raise ValueError
  hi = n - 1
  return [population[bisect(cum_weights, random() * total, 0, hi)]]
  \<close>
\<close>

definition random_choices :: "'a list \<Rightarrow> real list \<Rightarrow> real \<Rightarrow> py_error + 'a" where
  "random_choices population weights u =
     (let n = length population;
          cum_weights = accumulate weights
      in if length cum_weights \<noteq> n then Inl ValueError
         else if cum_weights = [] then Inl IndexError
         else (let total = last cum_weights in
               if total \<le> 0 then Inl ValueError
               else Inr (population ! bisect cum_weights (u * total) 0 (n - 1))))"

section \<open>The sampling estimator\<close>

text \<open>
  \<^verbatim>\<open>
  for _ in range(n):
      page_counts[page] += 1
      model = transition_model(corpus, page, damping_factor)
      page = random.choices(population=list(model.keys()),
                            weights=list(model.values()), k=1)[0]
  \<close>
  The first argument counts the rounds left, \<open>i\<close> is the index of the next draw.
\<close>

fun sample_loop ::
  "nat \<Rightarrow> 'p corpus \<Rightarrow> real \<Rightarrow> (nat \<Rightarrow> real) \<Rightarrow> nat \<Rightarrow> ('p, int) dict \<Rightarrow> 'p
     \<Rightarrow> py_error + ('p, int) dict" where
  "sample_loop 0 corpus damping_factor rng i page_counts page = Inr page_counts"
| "sample_loop (Suc k) corpus damping_factor rng i page_counts page =
     (case dict_get page_counts page of
        Inl e \<Rightarrow> Inl e
      | Inr c \<Rightarrow>
          (case transition_model corpus page damping_factor of
             Inl e \<Rightarrow> Inl e
           | Inr model \<Rightarrow>
               (case random_choices (keys model) (dict_values model) (rng i) of
                  Inl e \<Rightarrow> Inl e
                | Inr page' \<Rightarrow>
                    sample_loop k corpus damping_factor rng (Suc i)
                      (dict_set page_counts page (c + 1)) page')))"

text \<open>\<^verbatim>\<open>{page: count / n for page, count in page_counts.items()}\<close>\<close>

fun normalize_counts :: "('p, int) dict \<Rightarrow> int \<Rightarrow> py_error + 'p ranks" where
  "normalize_counts [] n = Inr []"
| "normalize_counts ((page, count) # rest) n =
     (case truediv (real_of_int count) (real_of_int n) of
        Inl e \<Rightarrow> Inl e
      | Inr r \<Rightarrow>
          (case normalize_counts rest n of
             Inl e \<Rightarrow> Inl e
           | Inr rs \<Rightarrow> Inr ((page, r) # rs)))"

text \<open>
  The whole function. \<^verbatim>\<open>{page: 0 for page in corpus}\<close> visits the keys of a dict, each
  once, so the counters start as the list of the keys with 0; the first page comes from
  draw 0 and round \<open>k\<close> of the loop uses draw \<open>k\<close>.
\<close>

definition sample_pagerank ::
  "'p corpus \<Rightarrow> real \<Rightarrow> int \<Rightarrow> (nat \<Rightarrow> real) \<Rightarrow> py_error + 'p ranks" where
  "sample_pagerank corpus damping_factor n rng =
     (let page_counts = map (\<lambda>page. (page, 0)) (keys corpus) in
      case random_choice (keys corpus) (rng 0) of
        Inl e \<Rightarrow> Inl e
      | Inr page \<Rightarrow>
          (case sample_loop (nat n) corpus damping_factor rng 1 page_counts page of
             Inl e \<Rightarrow> Inl e
           | Inr page_counts' \<Rightarrow> normalize_counts page_counts' n))"

section \<open>The iterative estimator\<close>

text \<open>\<^verbatim>\<open>{page: 1 / N for page in corpus}\<close>\<close>

fun initial_ranks :: "'p list \<Rightarrow> nat \<Rightarrow> py_error + 'p ranks" where
  "initial_ranks [] N = Inr []"
| "initial_ranks (page # pages) N =
     (case truediv 1 (real N) of
        Inl e \<Rightarrow> Inl e
      | Inr r \<Rightarrow>
          (case initial_ranks pages N of
             Inl e \<Rightarrow> Inl e
           | Inr rs \<Rightarrow> Inr ((page, r) # rs)))"

text \<open>
  \<^verbatim>\<open>
  for potential_linker in corpus:
      links = corpus[potential_linker]
      if not links:
          total += pagerank[potential_linker] / N
      elif page in links:
          total += pagerank[potential_linker] / len(links)
  \<close>
\<close>

fun linker_loop ::
  "'p list \<Rightarrow> 'p corpus \<Rightarrow> 'p ranks \<Rightarrow> nat \<Rightarrow> 'p \<Rightarrow> real \<Rightarrow> py_error + real" where
  "linker_loop [] corpus pagerank N page total' = Inr total'"
| "linker_loop (potential_linker # rest) corpus pagerank N page total' =
     (case dict_get corpus potential_linker of
        Inl e \<Rightarrow> Inl e
      | Inr links \<Rightarrow>
          if links = {||} then
            (case dict_get pagerank potential_linker of
               Inl e \<Rightarrow> Inl e
             | Inr r \<Rightarrow>
                 (case truediv r (real N) of
                    Inl e \<Rightarrow> Inl e
                  | Inr c \<Rightarrow> linker_loop rest corpus pagerank N page (total' + c)))
          else if page |\<in>| links then
            (case dict_get pagerank potential_linker of
               Inl e \<Rightarrow> Inl e
             | Inr r \<Rightarrow>
                 (case truediv r (real (fcard links)) of
                    Inl e \<Rightarrow> Inl e
                  | Inr c \<Rightarrow> linker_loop rest corpus pagerank N page (total' + c)))
          else linker_loop rest corpus pagerank N page total')"

text \<open>
  \<^verbatim>\<open>
  new_rank = {}
  for page in corpus:
      total = 0
      for potential_linker in corpus: ...
      new_rank[page] = (1 - damping_factor) / N + damping_factor * total
  \<close>
\<close>

fun page_loop ::
  "'p list \<Rightarrow> 'p corpus \<Rightarrow> 'p ranks \<Rightarrow> nat \<Rightarrow> real \<Rightarrow> 'p ranks \<Rightarrow> py_error + 'p ranks" where
  "page_loop [] corpus pagerank N damping_factor new_rank = Inr new_rank"
| "page_loop (page # pages) corpus pagerank N damping_factor new_rank =
     (case linker_loop (keys corpus) corpus pagerank N page 0 of
        Inl e \<Rightarrow> Inl e
      | Inr total' \<Rightarrow>
          (case truediv (1 - damping_factor) (real N) of
             Inl e \<Rightarrow> Inl e
           | Inr base \<Rightarrow>
               page_loop pages corpus pagerank N damping_factor
                 (dict_set new_rank page (base + damping_factor * total'))))"

definition compute_new_rank :: "'p corpus \<Rightarrow> real \<Rightarrow> 'p ranks \<Rightarrow> py_error + 'p ranks" where
  "compute_new_rank corpus damping_factor pagerank =
     page_loop (keys corpus) corpus pagerank (length corpus) damping_factor []"

text \<open>
  \<^verbatim>\<open>all(abs(new_rank[page] - pagerank[page]) < convergence_threshold for page in pagerank)\<close>,
  which stops at the first page that fails the test.
\<close>

fun all_converged :: "'p list \<Rightarrow> 'p ranks \<Rightarrow> 'p ranks \<Rightarrow> real \<Rightarrow> py_error + bool" where
  "all_converged [] new_rank pagerank threshold = Inr True"
| "all_converged (page # pages) new_rank pagerank threshold =
     (case dict_get new_rank page of
        Inl e \<Rightarrow> Inl e
      | Inr a \<Rightarrow>
          (case dict_get pagerank page of
             Inl e \<Rightarrow> Inl e
           | Inr b \<Rightarrow>
               if \<bar>a - b\<bar> < threshold then all_converged pages new_rank pagerank threshold
               else Inr False))"

definition convergence_threshold :: real where
  "convergence_threshold = 1 / 1000"

text \<open>
  The \<^verbatim>\<open>while True\<close> loop. It has no bound on its rounds, so it is a partial function:
  \<open>None\<close> is the loop that never leaves, \<open>Some (Inl e)\<close> an exception, \<open>Some (Inr r)\<close>
  the value of \<^verbatim>\<open>pagerank\<close> at the \<^verbatim>\<open>break\<close>.
\<close>

partial_function (option) iterate_loop ::
  "'p corpus \<Rightarrow> real \<Rightarrow> 'p ranks \<Rightarrow> (py_error + 'p ranks) option" where
  "iterate_loop corpus damping_factor pagerank =
     (case compute_new_rank corpus damping_factor pagerank of
        Inl e \<Rightarrow> Some (Inl e)
      | Inr new_rank \<Rightarrow>
          (case all_converged (keys pagerank) new_rank pagerank convergence_threshold of
             Inl e \<Rightarrow> Some (Inl e)
           | Inr stop \<Rightarrow>
               if stop then Some (Inr pagerank)
               else iterate_loop corpus damping_factor new_rank))"

text \<open>
  \<^verbatim>\<open>
  for page in pagerank:
      pagerank[page] /= total_sum
  \<close>
\<close>

fun normalize_loop :: "'p list \<Rightarrow> real \<Rightarrow> 'p ranks \<Rightarrow> py_error + 'p ranks" where
  "normalize_loop [] total_sum pagerank = Inr pagerank"
| "normalize_loop (page # pages) total_sum pagerank =
     (case dict_get pagerank page of
        Inl e \<Rightarrow> Inl e
      | Inr r \<Rightarrow>
          (case truediv r total_sum of
             Inl e \<Rightarrow> Inl e
           | Inr r' \<Rightarrow> normalize_loop pages total_sum (dict_set pagerank page r')))"

definition normalize :: "'p ranks \<Rightarrow> py_error + 'p ranks" where
  "normalize pagerank =
     (let total_sum = sum_list (dict_values pagerank) in
      normalize_loop (keys pagerank) total_sum pagerank)"

text \<open>
  The whole function: the initial ranks, the loop, the normalisation
  (\<^verbatim>\<open>total_sum = sum(pagerank.values())\<close> and the division of every rank by it). The set
  \<^verbatim>\<open>no_link_pages\<close> of the source is built and never read; it is left out.
\<close>

definition iterate_pagerank :: "'p corpus \<Rightarrow> real \<Rightarrow> (py_error + 'p ranks) option" where
  "iterate_pagerank corpus damping_factor =
     (let N = length corpus in
      case initial_ranks (keys corpus) N of
        Inl e \<Rightarrow> Some (Inl e)
      | Inr pagerank \<Rightarrow>
          (case iterate_loop corpus damping_factor pagerank of
             None \<Rightarrow> None
           | Some (Inl e) \<Rightarrow> Some (Inl e)
           | Some (Inr pagerank') \<Rightarrow> Some (normalize pagerank')))"

section \<open>The crawler\<close>

text \<open>
  A directory is what \<^verbatim>\<open>os.listdir\<close> and \<^verbatim>\<open>open(...).read()\<close> show of it: its entries in
  listing order, each with its text, or \<open>None\<close> where opening or reading it fails. The
  regular-expression search \<^verbatim>\<open>re.findall\<close> of the standard library is the parameter
  \<open>findall\<close>, from a file's text to the link targets found in it.
\<close>

type_synonym directory = "(string \<times> string option) list"

definition endswith :: "string \<Rightarrow> string \<Rightarrow> bool" where
  "endswith s suffix =
     (length suffix \<le> length s \<and> drop (length s - length suffix) s = suffix)"

text \<open>
  \<^verbatim>\<open>
  for filename in os.listdir(directory):
      if not filename.endswith(".html"):
          continue
      with open(os.path.join(directory, filename)) as f:
          contents = f.read()
          links = re.findall(..., contents)
          pages[filename] = set(links) - {filename}
  \<close>
\<close>

fun crawl_read ::
  "(string \<Rightarrow> string list) \<Rightarrow> directory \<Rightarrow> string corpus \<Rightarrow> py_error + string corpus" where
  "crawl_read findall [] pages = Inr pages"
| "crawl_read findall ((filename, file) # rest) pages =
     (if \<not> endswith filename ''.html'' then crawl_read findall rest pages
      else (case file of
              None \<Rightarrow> Inl OSError
            | Some contents \<Rightarrow>
                crawl_read findall rest
                  (dict_set pages filename (fset_of_list (findall contents) |-| {|filename|}))))"

text \<open>
  \<^verbatim>\<open>
  for filename in pages:
      pages[filename] = set(link for link in pages[filename] if link in pages)
  \<close>
\<close>

fun crawl_filter :: "string list \<Rightarrow> string corpus \<Rightarrow> py_error + string corpus" where
  "crawl_filter [] pages = Inr pages"
| "crawl_filter (filename # rest) pages =
     (case dict_get pages filename of
        Inl e \<Rightarrow> Inl e
      | Inr links \<Rightarrow>
          crawl_filter rest
            (dict_set pages filename (ffilter (\<lambda>link. link \<in> set (keys pages)) links)))"

text \<open>\<open>None\<close> for the directory is a path that \<^verbatim>\<open>os.listdir\<close> cannot list.\<close>

definition crawl :: "(string \<Rightarrow> string list) \<Rightarrow> directory option \<Rightarrow> py_error + string corpus" where
  "crawl findall directory =
     (case directory of
        None \<Rightarrow> Inl OSError
      | Some listing \<Rightarrow>
          (case crawl_read findall listing [] of
             Inl e \<Rightarrow> Inl e
           | Inr pages \<Rightarrow> crawl_filter (keys pages) pages))"

section \<open>Properties of link graphs\<close>

text \<open>The closed-universe invariant of a link graph: every neighbour is a key.\<close>

definition closed_universe :: "'p corpus \<Rightarrow> bool" where
  "closed_universe corpus =
     (\<forall>(p, links) \<in> set corpus. fset links \<subseteq> set (keys corpus))"

definition no_self_links :: "'p corpus \<Rightarrow> bool" where
  "no_self_links corpus = (\<forall>(p, links) \<in> set corpus. p |\<notin>| links)"

section \<open>Closed forms used in the proofs\<close>

definition linked_prob :: "'p fset \<Rightarrow> real \<Rightarrow> nat \<Rightarrow> 'p \<Rightarrow> real" where
  "linked_prob S d n p =
     (if p |\<in>| S then (1 - d) / real n + d / real (fcard S) else (1 - d) / real n)"

text \<open>The value a rank mapping holds for a page (0 for a page it does not hold).\<close>

definition rank_of :: "'p ranks \<Rightarrow> 'p \<Rightarrow> real" where
  "rank_of pagerank p = (case map_of pagerank p of None \<Rightarrow> 0 | Some v \<Rightarrow> v)"

text \<open>
  What the page \<open>q\<close> with neighbour set \<open>links\<close> adds to the new rank of \<open>p\<close> in one round:
  \<open>PR(q)/N\<close> if \<open>q\<close> has no outbound links, else \<open>PR(q)/L(q)\<close> if \<open>q\<close> links to \<open>p\<close>, else 0.
\<close>

definition contribution :: "nat \<Rightarrow> 'p ranks \<Rightarrow> 'p \<Rightarrow> 'p \<times> 'p fset \<Rightarrow> real" where
  "contribution N pagerank p entry =
     (case entry of (q, links) \<Rightarrow>
        if links = {||} then rank_of pagerank q / real N
        else if p |\<in>| links then rank_of pagerank q / real (fcard links)
        else 0)"

text \<open>The recurrence of the specification: \<open>(1 - d)/N + d * \<Sum>q. contribution of q\<close>.\<close>

definition spec_new_rank :: "'p corpus \<Rightarrow> real \<Rightarrow> 'p ranks \<Rightarrow> 'p \<Rightarrow> real" where
  "spec_new_rank corpus d pagerank p =
     (1 - d) / real (length corpus)
       + d * (\<Sum>entry\<leftarrow>corpus. contribution (length corpus) pagerank p entry)"

definition next_rank :: "'p corpus \<Rightarrow> real \<Rightarrow> 'p ranks \<Rightarrow> 'p ranks" where
  "next_rank corpus d pagerank = map (\<lambda>p. (p, spec_new_rank corpus d pagerank p)) (keys corpus)"

text \<open>The convergence test between a new round and the previous one.\<close>

definition settled :: "'p ranks \<Rightarrow> 'p ranks \<Rightarrow> bool" where
  "settled new_rank pagerank =
     (\<forall>p \<in> set (keys pagerank). \<bar>rank_of new_rank p - rank_of pagerank p\<bar> < convergence_threshold)"

text \<open>The rank mapping the loop holds after it has adopted \<open>k\<close> rounds.\<close>

definition start_rank :: "'p corpus \<Rightarrow> 'p ranks" where
  "start_rank corpus = map (\<lambda>p. (p, 1 / real (length corpus))) (keys corpus)"

definition adopted :: "'p corpus \<Rightarrow> real \<Rightarrow> nat \<Rightarrow> 'p ranks" where
  "adopted corpus d k = (next_rank corpus d ^^ k) (start_rank corpus)"

text \<open>Round \<open>k\<close> is the first one whose convergence test succeeds.\<close>

definition first_settled :: "'p corpus \<Rightarrow> real \<Rightarrow> nat \<Rightarrow> bool" where
  "first_settled corpus d k \<longleftrightarrow>
     (\<forall>j \<in> {..<k}. \<not> settled (next_rank corpus d (adopted corpus d j)) (adopted corpus d j))
     \<and> settled (next_rank corpus d (adopted corpus d k)) (adopted corpus d k)"

text \<open>The coefficient of \<open>PR(q)\<close> in the new rank of \<open>p\<close>.\<close>

definition link_weight :: "nat \<Rightarrow> 'p \<Rightarrow> 'p \<times> 'p fset \<Rightarrow> real" where
  "link_weight N p entry =
     (case entry of (q, links) \<Rightarrow>
        if links = {||} then 1 / real N
        else if p |\<in>| links then 1 / real (fcard links)
        else 0)"

text \<open>A rank mapping divided by its own sum.\<close>

definition scaled :: "'p ranks \<Rightarrow> 'p ranks" where
  "scaled pagerank =
     map (\<lambda>(p, v). (p, v / sum_list (dict_values pagerank))) pagerank"

section \<open>Floating-point rounding\<close>

text \<open>
  A Python float is an IEEE 754 binary64 number, and every floating-point operation
  returns the exact result rounded to the nearest binary64 number, ties to the one with an
  even significand. \<open>round64\<close> is that rounding as a function on the reals, for results
  below \<open>2 ^ 1024\<close> in size (overflow is not modelled): a number of binary exponent \<open>e\<close> is
  rounded to a multiple of \<open>2 ^ (e - 52)\<close>, and to a multiple of \<open>2 ^ (- 1074)\<close> in the
  subnormal range.
\<close>

definition round_even :: "real \<Rightarrow> int" where
  "round_even x =
     (let f = \<lfloor>x\<rfloor> in
      if x - of_int f < 1 / 2 then f
      else if 1 / 2 < x - of_int f then f + 1
      else if even f then f else f + 1)"

definition expo64 :: "real \<Rightarrow> int" where
  "expo64 x = max \<lfloor>log 2 \<bar>x\<bar>\<rfloor> (- 1022)"

definition ulp64 :: "real \<Rightarrow> real" where
  "ulp64 x = 2 powi (max \<lfloor>log 2 \<bar>x\<bar>\<rfloor> (- 1022) - 52)"

definition round64 :: "real \<Rightarrow> real" where
  "round64 x = sgn x * (of_int (round_even (\<bar>x\<bar> / ulp64 x)) * ulp64 x)"

text \<open>
  What the proofs need of a rounding: it keeps 0, it is monotone, and it leaves its own
  results unchanged. Exact arithmetic (no rounding) and \<open>round64\<close> are both roundings.
\<close>

definition rounding :: "(real \<Rightarrow> real) \<Rightarrow> bool" where
  "rounding rnd \<longleftrightarrow>
     rnd 0 = 0 \<and> (\<forall>x y. x \<le> y \<longrightarrow> rnd x \<le> rnd y) \<and> (\<forall>x. rnd (rnd x) = rnd x)"

section \<open>The transition model in floating point\<close>

text \<open>
  \<^verbatim>\<open>transition_model\<close> once more, with each operation of lines 60 to 73 rounded by \<open>rnd\<close>:
  \<^verbatim>\<open>1 - damping_factor\<close>, the division by \<^verbatim>\<open>total_pages\<close>, \<^verbatim>\<open>damping_factor / num_links\<close>, the
  addition of \<^verbatim>\<open>+=\<close> and \<^verbatim>\<open>1 / total_pages\<close>. The integers \<^verbatim>\<open>total_pages\<close> and \<^verbatim>\<open>num_links\<close>
  are converted without error. With \<open>rnd = round64\<close> this is the program on binary64 floats,
  with the identity it is \<open>transition_model\<close>.
\<close>

definition truediv_fl :: "(real \<Rightarrow> real) \<Rightarrow> real \<Rightarrow> real \<Rightarrow> py_error + real" where
  "truediv_fl rnd a b = (if b = 0 then Inl ZeroDivisionError else Inr (rnd (a / b)))"

fun linked_loop_fl ::
  "(real \<Rightarrow> real) \<Rightarrow> 'p list \<Rightarrow> 'p fset \<Rightarrow> real \<Rightarrow> nat \<Rightarrow> nat \<Rightarrow> 'p ranks
     \<Rightarrow> py_error + 'p ranks" where
  "linked_loop_fl rnd [] linked_pages damping_factor total_pages num_links probabilities =
     Inr probabilities"
| "linked_loop_fl rnd (p # ps) linked_pages damping_factor total_pages num_links probabilities =
     (case truediv_fl rnd (rnd (1 - damping_factor)) (real total_pages) of
        Inl e \<Rightarrow> Inl e
      | Inr base \<Rightarrow>
          (let probabilities1 = dict_set probabilities p base in
           if p |\<in>| linked_pages then
             (case dict_get probabilities1 p of
                Inl e \<Rightarrow> Inl e
              | Inr cur \<Rightarrow>
                  (case truediv_fl rnd damping_factor (real num_links) of
                     Inl e \<Rightarrow> Inl e
                   | Inr inc \<Rightarrow>
                       linked_loop_fl rnd ps linked_pages damping_factor total_pages num_links
                         (dict_set probabilities1 p (rnd (cur + inc)))))
           else
             linked_loop_fl rnd ps linked_pages damping_factor total_pages num_links
               probabilities1))"

fun uniform_loop_fl ::
  "(real \<Rightarrow> real) \<Rightarrow> 'p list \<Rightarrow> nat \<Rightarrow> 'p ranks \<Rightarrow> py_error + 'p ranks" where
  "uniform_loop_fl rnd [] total_pages probabilities = Inr probabilities"
| "uniform_loop_fl rnd (p # ps) total_pages probabilities =
     (case truediv_fl rnd 1 (real total_pages) of
        Inl e \<Rightarrow> Inl e
      | Inr u \<Rightarrow> uniform_loop_fl rnd ps total_pages (dict_set probabilities p u))"

definition transition_model_fl ::
  "(real \<Rightarrow> real) \<Rightarrow> 'p corpus \<Rightarrow> 'p \<Rightarrow> real \<Rightarrow> py_error + 'p ranks" where
  "transition_model_fl rnd corpus page damping_factor =
     (let total_pages = length corpus in
      case dict_get corpus page of
        Inl e \<Rightarrow> Inl e
      | Inr linked_pages \<Rightarrow>
          if linked_pages \<noteq> {||} then
            linked_loop_fl rnd (keys corpus) linked_pages damping_factor total_pages
              (fcard linked_pages) []
          else
            uniform_loop_fl rnd (keys corpus) total_pages [])"

text \<open>The value \<open>linked_loop_fl\<close> stores for a page.\<close>

definition linked_prob_fl :: "(real \<Rightarrow> real) \<Rightarrow> 'p fset \<Rightarrow> real \<Rightarrow> nat \<Rightarrow> 'p \<Rightarrow> real" where
  "linked_prob_fl rnd S d n p =
     (if p |\<in>| S then rnd (rnd (rnd (1 - d) / real n) + rnd (d / real (fcard S)))
      else rnd (rnd (1 - d) / real n))"

section \<open>Rounds of the loop\<close>

text \<open>
  A round of the \<^verbatim>\<open>while True\<close> loop that starts from \<open>pagerank\<close> and computes \<open>new_rank\<close>
  either fails the convergence test, and the loop goes on from \<open>new_rank\<close> (\<open>repeats\<close>), or
  passes it, and the loop is left at the \<^verbatim>\<open>break\<close> (\<open>breaks\<close>).
\<close>

definition repeats :: "'p corpus \<Rightarrow> real \<Rightarrow> 'p ranks \<Rightarrow> 'p ranks \<Rightarrow> bool" where
  "repeats corpus d pagerank new_rank \<longleftrightarrow>
     compute_new_rank corpus d pagerank = Inr new_rank
     \<and> all_converged (keys pagerank) new_rank pagerank convergence_threshold = Inr False"

definition breaks :: "'p corpus \<Rightarrow> real \<Rightarrow> 'p ranks \<Rightarrow> 'p ranks \<Rightarrow> bool" where
  "breaks corpus d pagerank new_rank \<longleftrightarrow>
     compute_new_rank corpus d pagerank = Inr new_rank
     \<and> all_converged (keys pagerank) new_rank pagerank convergence_threshold = Inr True"

section \<open>Dictionaries\<close>

lemma keys_Nil [simp]: "keys [] = []"
  by (simp add: keys_def)

lemma keys_Cons [simp]: "keys (x # d) = fst x # keys d"
  by (simp add: keys_def)

lemma length_keys [simp]: "length (keys d) = length d"
  by (simp add: keys_def)

lemma dict_set_fresh: "k \<notin> set (keys d) \<Longrightarrow> dict_set d k v = d @ [(k, v)]"
  by (induction d) auto

lemma dict_set_last [simp]: "k \<notin> set (keys d) \<Longrightarrow> dict_set (d @ [(k, v)]) k w = d @ [(k, w)]"
  by (induction d) auto

lemma dict_get_last [simp]: "k \<notin> set (keys d) \<Longrightarrow> dict_get (d @ [(k, v)]) k = Inr v"
  by (induction d) (auto simp: dict_get_def)

lemma dict_get_Inr_iff: "dict_get d k = Inr v \<longleftrightarrow> map_of d k = Some v"
  by (simp add: dict_get_def split: option.splits)

lemma dict_get_mem: "dict_get d k = Inr v \<Longrightarrow> (k, v) \<in> set d"
  by (simp add: dict_get_Inr_iff map_of_SomeD)

lemma dict_get_key: "dict_get d k = Inr v \<Longrightarrow> k \<in> set (keys d)"
  by (force simp: keys_def dest: dict_get_mem)

lemma dict_get_distinct:
  "distinct (keys d) \<Longrightarrow> (k, v) \<in> set d \<Longrightarrow> dict_get d k = Inr v"
  by (simp add: dict_get_Inr_iff keys_def)

section \<open>Closed form of the transition model\<close>

lemma linked_loop_closed_form:
  assumes "distinct ps" "set ps \<inter> set (keys probs) = {}" "n \<noteq> 0" "S \<noteq> {||}"
  shows "linked_loop ps S d n (fcard S) probs =
           Inr (probs @ map (\<lambda>p. (p, linked_prob S d n p)) ps)"
  using assms
proof (induction ps arbitrary: probs)
  case Nil
  then show ?case by simp
next
  case (Cons p ps)
  have fresh: "p \<notin> set (keys probs)"
    using Cons.prems(2) by auto
  have disj: "set ps \<inter> set (keys (probs @ [(p, v)])) = {}" for v
    using Cons.prems(1,2) by (auto simp: keys_def)
  have dist: "distinct ps"
    using Cons.prems(1) by simp
  show ?case
    using Cons.prems(3,4) fresh
    by (simp add: truediv_def dict_set_fresh linked_prob_def
        Cons.IH [OF dist disj Cons.prems(3,4)])
qed

lemma uniform_loop_closed_form:
  assumes "distinct ps" "set ps \<inter> set (keys probs) = {}" "n \<noteq> 0"
  shows "uniform_loop ps n probs = Inr (probs @ map (\<lambda>p. (p, 1 / real n)) ps)"
  using assms
proof (induction ps arbitrary: probs)
  case Nil
  then show ?case by simp
next
  case (Cons p ps)
  have fresh: "p \<notin> set (keys probs)"
    using Cons.prems(2) by auto
  have disj: "set ps \<inter> set (keys (probs @ [(p, v)])) = {}" for v
    using Cons.prems(1,2) by (auto simp: keys_def)
  have dist: "distinct ps"
    using Cons.prems(1) by simp
  show ?case
    using Cons.prems(3) fresh
    by (simp add: truediv_def dict_set_fresh Cons.IH [OF dist disj Cons.prems(3)])
qed

section \<open>Sums over the pages\<close>

lemma transition_model_closed_form:
  assumes "distinct (keys corpus)" "dict_get corpus page = Inr S"
  shows "transition_model corpus page d =
     Inr (map (\<lambda>p. (p, if S \<noteq> {||} then linked_prob S d (length corpus) p
                         else 1 / real (length corpus))) (keys corpus))"
proof -
  have "corpus \<noteq> []" using assms(2) by (auto simp: dict_get_def)
  then have n: "length corpus \<noteq> 0" by simp
  show ?thesis
    using assms(1) n
    by (simp add: transition_model_def Let_def assms(2) linked_loop_closed_form uniform_loop_closed_form)
qed

lemma sum_list_indicator:
  "distinct ks \<Longrightarrow> (\<Sum>q\<leftarrow>ks. if q |\<in>| S then c else (0::real)) = c * real (card (set ks \<inter> fset S))"
proof (induction ks)
  case Nil then show ?case by simp
next
  case (Cons k ks)
  then show ?case
    by (cases "k |\<in>| S") (simp_all add: algebra_simps)
qed

lemma card_inter_eq: "fset S \<subseteq> set ks \<Longrightarrow> card (set ks \<inter> fset S) = fcard S"
  by (simp add: fcard.rep_eq Int_absorb1)

lemma sum_list_const: "(\<Sum>q\<leftarrow>ks. (c::real)) = real (length ks) * c"
  by (induction ks) (simp_all add: algebra_simps)

lemma sum_linked_prob:
  assumes "distinct ks" "ks \<noteq> []" "S \<noteq> {||}"
  shows "(\<Sum>q\<leftarrow>ks. linked_prob S d (length ks) q) = (1 - d) + d * real (card (set ks \<inter> fset S)) / real (fcard S)"
proof -
  have "linked_prob S d (length ks) = (\<lambda>q. (1 - d) / real (length ks) + (if q |\<in>| S then d / real (fcard S) else 0))"
    by (auto simp: linked_prob_def)
  then have "(\<Sum>q\<leftarrow>ks. linked_prob S d (length ks) q) =
     (\<Sum>q\<leftarrow>ks. (1 - d) / real (length ks)) + (\<Sum>q\<leftarrow>ks. if q |\<in>| S then d / real (fcard S) else 0)"
    by (simp add: sum_list_addf)
  also have "\<dots> = (1 - d) + d * real (card (set ks \<inter> fset S)) / real (fcard S)"
    using assms by (simp add: sum_list_const sum_list_indicator)
  finally show ?thesis .
qed

section \<open>The transition model is a distribution\<close>

lemma dict_get_map_key:
  "q \<in> set ks \<Longrightarrow> dict_get (map (\<lambda>p. (p, f p)) ks) q = Inr (f q)"
  by (induction ks) (auto simp: dict_get_def)

lemma keys_map_key [simp]: "keys (map (\<lambda>p. (p, f p)) ks) = ks"
  by (simp add: keys_def comp_def)

lemma dict_values_map_key [simp]: "dict_values (map (\<lambda>p. (p, f p)) ks) = map f ks"
  by (simp add: dict_values_def comp_def)

lemma transition_model_sum_at:
  assumes "distinct (keys corpus)"
    and "dict_get corpus p = Inr S"
    and "fset S \<subseteq> set (keys corpus)"
  shows "\<exists>r. transition_model corpus p d = Inr r \<and> keys r = keys corpus
             \<and> sum_list (dict_values r) = 1"
proof -
  let ?N = "length corpus"
  let ?f = "\<lambda>q. if S \<noteq> {||} then linked_prob S d ?N q else 1 / real ?N"
  have ne: "keys corpus \<noteq> []"
    using dict_get_key [OF assms(2)] by auto
  have ne': "corpus \<noteq> []"
    using ne by auto
  have tm: "transition_model corpus p d = Inr (map (\<lambda>q. (q, ?f q)) (keys corpus))"
    by (rule transition_model_closed_form [OF assms(1,2)])
  have "sum_list (map ?f (keys corpus)) = 1"
  proof (cases "S = {||}")
    case True
    then show ?thesis using ne' by (simp add: sum_list_const)
  next
    case False
    then have k: "fcard S \<noteq> 0" by simp
    have "sum_list (map ?f (keys corpus)) =
            (\<Sum>q\<leftarrow>keys corpus. linked_prob S d (length (keys corpus)) q)"
      using False by simp
    also have "\<dots> = (1 - d) + d * real (card (set (keys corpus) \<inter> fset S)) / real (fcard S)"
      by (rule sum_linked_prob [OF assms(1) ne False])
    also have "\<dots> = 1"
      using k by (simp add: card_inter_eq [OF assms(3)])
    finally show ?thesis .
  qed
  then show ?thesis
    by (simp add: tm)
qed

text \<open>
  Claim C3. For a page \<open>p\<close> of the graph with an empty neighbour set, \<^verbatim>\<open>transition_model\<close>
  returns the uniform distribution: every page of the graph, \<open>p\<close> among them, gets exactly
  \<open>1/N\<close>, whatever the damping factor is.
\<close>

theorem transition_model_dead_end:
  assumes "distinct (keys corpus)"
    and "dict_get corpus p = Inr {||}"
  shows "transition_model corpus p d =
           Inr (map (\<lambda>q. (q, 1 / real (length corpus))) (keys corpus))
         \<and> p \<in> set (keys corpus)"
  using transition_model_closed_form [OF assms, of d] dict_get_key [OF assms(2)]
  by simp

theorem transition_model_dead_end_witness:
  "transition_model [(''A'', {||}), (''B'', {|''A''|})] ''A'' (85 / 100) =
     Inr [(''A'', 1 / 2), (''B'', 1 / 2)]"
  using transition_model_dead_end [of "[(''A'', {||}), (''B'', {|''A''|})]" "''A''" "85 / 100"]
  by (simp add: dict_get_def)

section \<open>Rounding to binary64\<close>

lemma round_even_of_int [simp]: "round_even (of_int n) = n"
  by (simp add: round_even_def)

lemma round_even_numeral [simp]: "round_even (numeral n) = numeral n"
  using round_even_of_int [of "numeral n"] by simp

lemma floor_le_round_even: "\<lfloor>x\<rfloor> \<le> round_even x"
  by (simp add: round_even_def Let_def)

lemma round_even_le_floor: "round_even x \<le> \<lfloor>x\<rfloor> + 1"
  by (simp add: round_even_def Let_def)

lemma round_even_lower: "of_int a \<le> x \<Longrightarrow> a \<le> round_even x"
proof -
  assume "of_int a \<le> x"
  then have "a \<le> \<lfloor>x\<rfloor>"
    by (simp add: le_floor_iff)
  with floor_le_round_even [of x] show ?thesis
    by linarith
qed

lemma round_even_upper: "x \<le> of_int b \<Longrightarrow> round_even x \<le> b"
proof -
  assume le: "x \<le> of_int b"
  show ?thesis
  proof (cases "of_int \<lfloor>x\<rfloor> = x")
    case True
    then have "round_even x = \<lfloor>x\<rfloor>"
      by (metis round_even_of_int)
    moreover have "\<lfloor>x\<rfloor> \<le> b"
      using le by (metis floor_mono floor_of_int)
    ultimately show ?thesis
      by simp
  next
    case False
    then have "of_int \<lfloor>x\<rfloor> < x"
      using of_int_floor_le [of x] by linarith
    then have "of_int \<lfloor>x\<rfloor> < (of_int b :: real)"
      using le by linarith
    then have "\<lfloor>x\<rfloor> < b"
      by simp
    with round_even_le_floor [of x] show ?thesis
      by linarith
  qed
qed

lemma round_even_mono: "x \<le> y \<Longrightarrow> round_even x \<le> round_even y"
proof -
  assume le: "x \<le> y"
  have fl: "\<lfloor>x\<rfloor> \<le> \<lfloor>y\<rfloor>"
    using le by (rule floor_mono)
  show ?thesis
  proof (cases "\<lfloor>x\<rfloor> = \<lfloor>y\<rfloor>")
    case True
    then show ?thesis
      using le by (auto simp: round_even_def Let_def)
  next
    case False
    with fl have "\<lfloor>x\<rfloor> + 1 \<le> \<lfloor>y\<rfloor>" by simp
    moreover have "round_even x \<le> \<lfloor>x\<rfloor> + 1"
      by (rule round_even_le_floor)
    moreover have "\<lfloor>y\<rfloor> \<le> round_even y"
      by (rule floor_le_round_even)
    ultimately show ?thesis by linarith
  qed
qed

lemma power_int_less_imp_less: "(2 :: real) powi a < 2 powi b \<Longrightarrow> a < b"
proof (rule ccontr)
  assume less: "(2 :: real) powi a < 2 powi b" and "\<not> a < b"
  then have "b \<le> a"
    by simp
  then have "(2 :: real) powi b \<le> 2 powi a"
    by (intro power_int_increasing) simp_all
  with less show False
    by simp
qed

lemma floor_log2_iff:
  "0 < x \<Longrightarrow> \<lfloor>log 2 x\<rfloor> = k \<longleftrightarrow> 2 powi k \<le> x \<and> x < 2 powi (k + 1)"
  using floor_log_eq_powr_iff [of x 2 k] powr_real_of_int' [of 2 k] powr_real_of_int' [of 2 "k + 1"]
  by simp

lemma floor_log2_bounds:
  assumes "0 < x"
  shows "2 powi \<lfloor>log 2 x\<rfloor> \<le> x" and "x < 2 powi (\<lfloor>log 2 x\<rfloor> + 1)"
  using floor_log2_iff [OF assms, of "\<lfloor>log 2 x\<rfloor>"] by simp_all

lemma ulp64_expo: "ulp64 x = 2 powi (expo64 x - 52)"
  by (simp add: ulp64_def expo64_def)

lemma ulp64_pos [simp]: "0 < ulp64 x"
  by (simp add: ulp64_def)

lemma ulp64_nonneg [simp]: "0 \<le> ulp64 x"
  by (simp add: ulp64_def)

lemma expo64_ge: "- 1022 \<le> expo64 x"
  by (simp add: expo64_def)

lemma expo64_upper: "0 < x \<Longrightarrow> x < 2 powi (expo64 x + 1)"
proof -
  assume pos: "0 < x"
  have "x < 2 powi (\<lfloor>log 2 x\<rfloor> + 1)"
    by (rule floor_log2_bounds [OF pos])
  also have "\<dots> \<le> 2 powi (expo64 x + 1)"
    using pos by (intro power_int_increasing) (simp_all add: expo64_def)
  finally show ?thesis .
qed

lemma expo64_lower: "0 < x \<Longrightarrow> - 1022 < expo64 x \<Longrightarrow> 2 powi expo64 x \<le> x"
proof -
  assume pos: "0 < x" and "- 1022 < expo64 x"
  then have "expo64 x = \<lfloor>log 2 x\<rfloor>"
    by (simp add: expo64_def max_def split: if_splits)
  then show ?thesis
    using floor_log2_bounds(1) [OF pos] by simp
qed

lemma expo64_eq:
  assumes "0 < x" and "2 powi e \<le> x" and "x < 2 powi (e + 1)" and "- 1022 \<le> e"
  shows "expo64 x = e"
  using assms floor_log2_iff [of x e] by (simp add: expo64_def)

lemma expo64_subnormal:
  assumes "0 < x" and "x < 2 powi (- 1021)"
  shows "expo64 x = - 1022"
proof -
  have "2 powi \<lfloor>log 2 x\<rfloor> < (2 :: real) powi (- 1021)"
    using floor_log2_bounds(1) [OF assms(1)] assms(2) by linarith
  then have "\<lfloor>log 2 x\<rfloor> < - 1021"
    by (rule power_int_less_imp_less)
  then show ?thesis
    using assms(1) by (simp add: expo64_def)
qed

lemma expo64_mono: "0 < x \<Longrightarrow> x \<le> y \<Longrightarrow> expo64 x \<le> expo64 y"
proof -
  assume "0 < x" and "x \<le> y"
  then have "log 2 x \<le> log 2 y"
    by simp
  then have "\<lfloor>log 2 x\<rfloor> \<le> \<lfloor>log 2 y\<rfloor>"
    by (rule floor_mono)
  then show ?thesis
    using \<open>0 < x\<close> \<open>x \<le> y\<close> by (simp add: expo64_def)
qed

lemma round64_zero [simp]: "round64 0 = 0"
  by (simp add: round64_def)

lemma ulp64_minus [simp]: "ulp64 (- x) = ulp64 x"
  by (simp add: ulp64_def)

lemma round64_minus: "round64 (- x) = - round64 x"
  by (simp add: round64_def sgn_minus)

lemma round64_pos:
  "0 < x \<Longrightarrow> round64 x = of_int (round_even (x / ulp64 x)) * ulp64 x"
  by (simp add: round64_def)

lemma two_powi_split: "(2 :: real) powi (e + 1) = 2 ^ 53 * 2 powi (e - 52)"
proof -
  have "e + 1 = 53 + (e - 52)"
    by simp
  then have "(2 :: real) powi (e + 1) = 2 powi (53 + (e - 52))"
    by (rule arg_cong)
  also have "\<dots> = 2 powi 53 * 2 powi (e - 52)"
    by (subst power_int_add) simp_all
  finally show ?thesis
    by simp
qed

lemma two_powi_split': "(2 :: real) powi e = 2 ^ 52 * 2 powi (e - 52)"
proof -
  have "e = 52 + (e - 52)"
    by simp
  then have "(2 :: real) powi e = 2 powi (52 + (e - 52))"
    by (rule arg_cong)
  also have "\<dots> = 2 powi 52 * 2 powi (e - 52)"
    by (subst power_int_add) simp_all
  finally show ?thesis
    by simp
qed

lemma quotient_upper: "0 < x \<Longrightarrow> x / ulp64 x < 2 ^ 53"
proof -
  assume pos: "0 < x"
  have "x < 2 ^ 53 * ulp64 x"
    using expo64_upper [OF pos] by (simp add: two_powi_split ulp64_expo)
  then show ?thesis
    by (simp add: pos_divide_less_eq)
qed

lemma quotient_lower: "0 < x \<Longrightarrow> - 1022 < expo64 x \<Longrightarrow> 2 ^ 52 \<le> x / ulp64 x"
proof -
  assume pos: "0 < x" and normal: "- 1022 < expo64 x"
  have "2 ^ 52 * ulp64 x \<le> x"
    using expo64_lower [OF pos normal] by (simp add: two_powi_split' [of "expo64 x"] ulp64_expo)
  then show ?thesis
    by (simp add: pos_le_divide_eq)
qed

lemma mantissa_upper: "0 < x \<Longrightarrow> round_even (x / ulp64 x) \<le> 2 ^ 53"
  using quotient_upper [of x] by (intro round_even_upper) simp

lemma mantissa_lower: "0 < x \<Longrightarrow> - 1022 < expo64 x \<Longrightarrow> 2 ^ 52 \<le> round_even (x / ulp64 x)"
  using quotient_lower [of x] by (intro round_even_lower) simp

lemma mantissa_nonneg: "0 < x \<Longrightarrow> 0 \<le> round_even (x / ulp64 x)"
  by (intro round_even_lower) simp

lemma round64_nonneg: "0 \<le> x \<Longrightarrow> 0 \<le> round64 x"
proof (cases "x = 0")
  case True
  then show ?thesis by simp
next
  case False
  moreover assume "0 \<le> x"
  ultimately have pos: "0 < x"
    by simp
  show ?thesis
    using mantissa_nonneg [OF pos] by (simp add: round64_pos [OF pos])
qed

lemma round64_upper: "0 < x \<Longrightarrow> round64 x \<le> 2 powi (expo64 x + 1)"
proof -
  assume pos: "0 < x"
  have "real_of_int (round_even (x / ulp64 x)) \<le> 2 ^ 53"
    using mantissa_upper [OF pos] by (metis of_int_le_iff of_int_numeral of_int_power)
  then have "round64 x \<le> 2 ^ 53 * ulp64 x"
    by (simp add: round64_pos [OF pos])
  then show ?thesis
    by (simp add: two_powi_split ulp64_expo)
qed

lemma round64_lower: "0 < x \<Longrightarrow> - 1022 < expo64 x \<Longrightarrow> 2 powi expo64 x \<le> round64 x"
proof -
  assume pos: "0 < x" and normal: "- 1022 < expo64 x"
  have "2 ^ 52 \<le> real_of_int (round_even (x / ulp64 x))"
    using mantissa_lower [OF pos normal] by (metis of_int_le_iff of_int_numeral of_int_power)
  then have "2 ^ 52 * ulp64 x \<le> round64 x"
    by (simp add: round64_pos [OF pos])
  then show ?thesis
    by (simp add: two_powi_split' [of "expo64 x"] ulp64_expo)
qed

lemma round64_mono_pos:
  assumes "0 < x" and "x \<le> y"
  shows "round64 x \<le> round64 y"
proof -
  have ypos: "0 < y"
    using assms by linarith
  have le: "expo64 x \<le> expo64 y"
    using assms by (rule expo64_mono)
  show ?thesis
  proof (cases "expo64 x = expo64 y")
    case True
    then have u: "ulp64 y = ulp64 x"
      by (simp add: ulp64_expo)
    have "x / ulp64 x \<le> y / ulp64 x"
      using assms(2) by (simp add: divide_right_mono)
    then have "round_even (x / ulp64 x) \<le> round_even (y / ulp64 x)"
      by (rule round_even_mono)
    then show ?thesis
      by (simp add: round64_pos assms(1) ypos u)
  next
    case False
    with le have less: "expo64 x + 1 \<le> expo64 y"
      by simp
    then have normal: "- 1022 < expo64 y"
      using expo64_ge [of x] by linarith
    have "round64 x \<le> 2 powi (expo64 x + 1)"
      by (rule round64_upper [OF assms(1)])
    also have "\<dots> \<le> 2 powi expo64 y"
      using less by (intro power_int_increasing) simp_all
    also have "\<dots> \<le> round64 y"
      by (rule round64_lower [OF ypos normal])
    finally show ?thesis .
  qed
qed

lemma round64_mono: "x \<le> y \<Longrightarrow> round64 x \<le> round64 y"
proof -
  assume le: "x \<le> y"
  consider "0 < x" | "x \<le> 0" "0 \<le> y" | "y < 0"
    by linarith
  then show ?thesis
  proof cases
    case 1
    then show ?thesis
      using le by (rule round64_mono_pos)
  next
    case 2
    have "0 \<le> round64 (- x)"
      using 2(1) by (intro round64_nonneg) simp
    then have "round64 x \<le> 0"
      by (simp add: round64_minus)
    also have "0 \<le> round64 y"
      using 2(2) by (rule round64_nonneg)
    finally show ?thesis .
  next
    case 3
    then have "0 < - y" and "- y \<le> - x"
      using le by simp_all
    then have "round64 (- y) \<le> round64 (- x)"
      by (rule round64_mono_pos)
    then show ?thesis
      by (simp add: round64_minus)
  qed
qed

lemma round64_representable:
  assumes "0 < x" and "x = of_int m * 2 powi (expo64 x - 52)"
  shows "round64 x = x"
proof -
  have "x = of_int m * ulp64 x"
    using assms(2) by (simp add: ulp64_expo)
  moreover have "ulp64 x \<noteq> 0"
    using ulp64_pos [of x] by linarith
  ultimately have "x / ulp64 x = of_int m"
    by (metis nonzero_mult_div_cancel_right)
  then show ?thesis
    using assms(2) by (simp add: round64_pos [OF assms(1)] ulp64_expo)
qed

lemma round64_idem_pos:
  assumes "0 < x"
  shows "round64 (round64 x) = round64 x"
proof -
  let ?e = "expo64 x"
  let ?m = "round_even (x / ulp64 x)"
  let ?y = "round64 x"
  have y: "?y = of_int ?m * 2 powi (?e - 52)"
    by (simp add: round64_pos [OF assms] ulp64_expo)
  show ?thesis
  proof (cases "?y = 0")
    case True
    then show ?thesis by simp
  next
    case False
    then have ypos: "0 < ?y"
      using round64_nonneg [of x] assms by simp
    show ?thesis
    proof (cases "?m = 2 ^ 53")
      case True
      then have top: "?y = 2 powi (?e + 1)"
        by (simp add: y two_powi_split)
      have "expo64 ?y = ?e + 1"
      proof (rule expo64_eq [OF ypos])
        show "2 powi (?e + 1) \<le> ?y"
          by (simp add: top)
        have "(2 :: real) powi (?e + 1) < 2 powi (?e + 1 + 1)"
          by (intro power_int_strict_increasing) simp_all
        then show "?y < 2 powi (?e + 1 + 1)"
          by (simp add: top)
        show "- 1022 \<le> ?e + 1"
          using expo64_ge [of x] by simp
      qed
      moreover have "?y = of_int (2 ^ 52) * 2 powi (?e + 1 - 52)"
        using two_powi_split' [of "?e + 1"] by (simp add: top)
      ultimately show ?thesis
        by (intro round64_representable [OF ypos, of "2 ^ 52"]) simp
    next
      case False
      then have "?m < 2 ^ 53"
        using mantissa_upper [OF assms] by simp
      then have "real_of_int ?m < 2 ^ 53"
        by (metis of_int_less_iff of_int_numeral of_int_power)
      then have below: "?y < 2 powi (?e + 1)"
        by (simp add: y two_powi_split)
      have "expo64 ?y = ?e"
      proof (cases "- 1022 < ?e")
        case True
        show ?thesis
        proof (rule expo64_eq [OF ypos _ below])
          show "2 powi ?e \<le> ?y"
            by (rule round64_lower [OF assms True])
          show "- 1022 \<le> ?e"
            by (rule expo64_ge)
        qed
      next
        case False
        then have e: "?e = - 1022"
          using expo64_ge [of x] by simp
        then have "?y < 2 powi (- 1021)"
          using below by simp
        then show ?thesis
          using expo64_subnormal [OF ypos] e by simp
      qed
      then have "?y = of_int ?m * 2 powi (expo64 ?y - 52)"
        using y by simp
      then show ?thesis
        by (rule round64_representable [OF ypos])
    qed
  qed
qed

lemma round64_idem: "round64 (round64 x) = round64 x"
proof -
  consider "0 < x" | "x = 0" | "x < 0"
    by linarith
  then show ?thesis
  proof cases
    case 1
    then show ?thesis by (rule round64_idem_pos)
  next
    case 2
    then show ?thesis by simp
  next
    case 3
    then have "round64 (round64 (- x)) = round64 (- x)"
      by (intro round64_idem_pos) simp
    then show ?thesis
      by (simp add: round64_minus)
  qed
qed

lemma rounding_round64: "rounding round64"
  by (simp add: rounding_def round64_mono round64_idem)

lemma rounding_id: "rounding (\<lambda>x. x)"
  by (simp add: rounding_def)

lemma round64_eval:
  assumes "0 < x" and "2 powi e \<le> x" and "x < 2 powi (e + 1)" and "- 1022 \<le> e"
  shows "round64 x = of_int (round_even (x / 2 powi (e - 52))) * 2 powi (e - 52)"
  using expo64_eq [OF assms] by (simp add: round64_pos [OF assms(1)] ulp64_expo)

section \<open>The error of a rounding\<close>

lemma round_even_error: "\<bar>of_int (round_even y) - y\<bar> \<le> 1 / 2"
  unfolding round_even_def Let_def by (auto; linarith)

lemma round64_error_pos:
  assumes "0 < x"
  shows "\<bar>round64 x - x\<bar> \<le> ulp64 x / 2"
proof -
  have u: "0 < ulp64 x" by (rule ulp64_pos)
  then have nz: "ulp64 x \<noteq> 0" by linarith
  have "round64 x - x = (of_int (round_even (x / ulp64 x)) - x / ulp64 x) * ulp64 x"
    using assms nz by (simp add: round64_def algebra_simps)
  then have "\<bar>round64 x - x\<bar> = \<bar>of_int (round_even (x / ulp64 x)) - x / ulp64 x\<bar> * ulp64 x"
    by (simp add: abs_mult)
  also have "\<dots> \<le> 1 / 2 * ulp64 x"
    by (rule mult_right_mono [OF round_even_error]) simp
  finally show ?thesis by simp
qed

lemma ulp64_half_bound:
  assumes "0 < x"
  shows "ulp64 x / 2 \<le> x / 2 ^ 53 + 1 / 2 ^ 1075"
proof (cases "- 1022 < expo64 x")
  case True
  have "ulp64 x / 2 = 2 powi expo64 x / 2 ^ 53"
    using two_powi_split' [of "expo64 x"] by (simp add: ulp64_expo)
  also have "\<dots> \<le> x / 2 ^ 53"
    using expo64_lower [OF assms True] by (simp add: divide_right_mono)
  finally show ?thesis by simp
next
  case False
  then have "expo64 x = - 1022"
    using expo64_ge [of x] by linarith
  then have "ulp64 x = 2 powi (- 1074)"
    by (simp add: ulp64_expo)
  then have "ulp64 x / 2 = 1 / 2 ^ 1075"
    by (simp add: power_int_minus field_simps)
  then show ?thesis using assms by simp
qed

lemma round64_error: "\<bar>round64 x - x\<bar> \<le> \<bar>x\<bar> / 2 ^ 53 + 1 / 2 ^ 1075"
proof -
  consider "x = 0" | "0 < x" | "x < 0" by linarith
  then show ?thesis
  proof cases
    case 1 then show ?thesis by simp
  next
    case 2
    then show ?thesis
      using round64_error_pos [OF 2] ulp64_half_bound [OF 2] by simp
  next
    case 3
    then have p: "0 < - x" by simp
    have "\<bar>round64 x - x\<bar> = \<bar>round64 (- x) - (- x)\<bar>"
      by (simp add: round64_minus)
    then show ?thesis
      using round64_error_pos [OF p] ulp64_half_bound [OF p] 3 by simp
  qed
qed

section \<open>Closed form of the transition model in floating point\<close>

lemma truediv_fl_exact: "truediv_fl (\<lambda>x. x) a b = truediv a b"
  by (simp add: truediv_fl_def truediv_def)

lemma linked_loop_fl_exact:
  "linked_loop_fl (\<lambda>x. x) ps S d n k probs = linked_loop ps S d n k probs"
  by (induction ps arbitrary: probs) (simp_all add: truediv_fl_exact Let_def split: sum.splits)

lemma uniform_loop_fl_exact: "uniform_loop_fl (\<lambda>x. x) ps n probs = uniform_loop ps n probs"
  by (induction ps arbitrary: probs) (simp_all add: truediv_fl_exact split: sum.splits)

lemma transition_model_fl_exact:
  "transition_model_fl (\<lambda>x. x) corpus p d = transition_model corpus p d"
  by (simp add: transition_model_fl_def transition_model_def linked_loop_fl_exact
      uniform_loop_fl_exact Let_def split: sum.splits)

lemma linked_loop_fl_closed_form:
  assumes "distinct ps" "set ps \<inter> set (keys probs) = {}" "n \<noteq> 0" "S \<noteq> {||}"
  shows "linked_loop_fl rnd ps S d n (fcard S) probs =
           Inr (probs @ map (\<lambda>p. (p, linked_prob_fl rnd S d n p)) ps)"
  using assms
proof (induction ps arbitrary: probs)
  case Nil
  then show ?case by simp
next
  case (Cons p ps)
  have fresh: "p \<notin> set (keys probs)"
    using Cons.prems(2) by auto
  have disj: "set ps \<inter> set (keys (probs @ [(p, v)])) = {}" for v
    using Cons.prems(1,2) by (auto simp: keys_def)
  have dist: "distinct ps"
    using Cons.prems(1) by simp
  show ?case
    using Cons.prems(3,4) fresh
    by (simp add: truediv_fl_def dict_set_fresh linked_prob_fl_def
        Cons.IH [OF dist disj Cons.prems(3,4)])
qed

lemma transition_model_fl_linked:
  assumes "distinct (keys corpus)" "dict_get corpus page = Inr S" "S \<noteq> {||}"
  shows "transition_model_fl rnd corpus page d =
     Inr (map (\<lambda>p. (p, linked_prob_fl rnd S d (length corpus) p)) (keys corpus))"
proof -
  have "corpus \<noteq> []" using assms(2) by (auto simp: dict_get_def)
  then have n: "length corpus \<noteq> 0" by simp
  show ?thesis
    using assms(1,3) n
    by (simp add: transition_model_fl_def Let_def assms(2) linked_loop_fl_closed_form)
qed

lemma uniform_loop_fl_closed_form:
  assumes "distinct ps" "set ps \<inter> set (keys probs) = {}" "n \<noteq> 0"
  shows "uniform_loop_fl rnd ps n probs = Inr (probs @ map (\<lambda>p. (p, rnd (1 / real n))) ps)"
  using assms
proof (induction ps arbitrary: probs)
  case Nil
  then show ?case by simp
next
  case (Cons p ps)
  have fresh: "p \<notin> set (keys probs)"
    using Cons.prems(2) by auto
  have disj: "set ps \<inter> set (keys (probs @ [(p, v)])) = {}" for v
    using Cons.prems(1,2) by (auto simp: keys_def)
  have dist: "distinct ps"
    using Cons.prems(1) by simp
  show ?case
    using Cons.prems(3) fresh
    by (simp add: truediv_fl_def dict_set_fresh Cons.IH [OF dist disj Cons.prems(3)])
qed

lemma transition_model_fl_uniform:
  assumes "distinct (keys corpus)" "dict_get corpus page = Inr {||}"
  shows "transition_model_fl rnd corpus page d =
     Inr (map (\<lambda>p. (p, rnd (1 / real (length corpus)))) (keys corpus))"
proof -
  have "corpus \<noteq> []" using assms(2) by (auto simp: dict_get_def)
  then have n: "length corpus \<noteq> 0" by simp
  show ?thesis
    using assms(1) n
    by (simp add: transition_model_fl_def Let_def assms(2) uniform_loop_fl_closed_form)
qed

section \<open>The transition model is a distribution, in floating point too\<close>

lemma linked_sum_error:
  fixes rnd :: "real \<Rightarrow> real" and u \<eta> d N k :: real
  assumes err: "\<And>x. \<bar>rnd x - x\<bar> \<le> u * \<bar>x\<bar> + \<eta>"
    and u: "0 \<le> u" "u \<le> 1" and eta: "0 \<le> \<eta>" "\<eta> \<le> 1"
    and d: "0 \<le> d" "d \<le> 1" and k: "1 \<le> k" "k \<le> N"
  shows "\<bar>(N - k) * rnd (rnd (1 - d) / N)
           + k * rnd (rnd (rnd (1 - d) / N) + rnd (d / k)) - 1\<bar> \<le> 12 * u + 7 * N * \<eta>"
proof -
  define a where "a = rnd (1 - d)"
  define c where "c = rnd (d / k)"
  define v0 where "v0 = rnd (a / N)"
  define v1 where "v1 = rnd (v0 + c)"
  have N: "1 \<le> N" and Npos: "0 < N" and kpos: "0 < k"
    using k by linarith+
  have "1 * \<eta> \<le> N * \<eta>"
    using N eta(1) by (rule mult_right_mono)
  then have etaN: "\<eta> \<le> N * \<eta>"
    by simp
  have etak: "k * \<eta> \<le> N * \<eta>"
    using k(2) eta(1) by (rule mult_right_mono)
  have "\<bar>a - (1 - d)\<bar> \<le> u * \<bar>1 - d\<bar> + \<eta>"
    unfolding a_def by (rule err)
  moreover have "u * \<bar>1 - d\<bar> \<le> u * 1"
    using d by (intro mult_left_mono u(1)) simp
  ultimately have ea: "\<bar>a - (1 - d)\<bar> \<le> u + \<eta>"
    by simp
  then have a3: "\<bar>a\<bar> \<le> 3"
    using d u(2) eta(2) by linarith
  have "\<bar>v0 - a / N\<bar> \<le> u * \<bar>a / N\<bar> + \<eta>"
    unfolding v0_def by (rule err)
  then have "N * \<bar>v0 - a / N\<bar> \<le> N * (u * \<bar>a / N\<bar> + \<eta>)"
    using Npos by (intro mult_left_mono) simp_all
  moreover have "N * \<bar>v0 - a / N\<bar> = \<bar>N * v0 - a\<bar>"
  proof -
    have "N * v0 - a = N * (v0 - a / N)"
      using Npos by (simp add: field_simps)
    then show ?thesis
      using Npos by (simp add: abs_mult)
  qed
  moreover have "N * (u * \<bar>a / N\<bar> + \<eta>) = u * \<bar>a\<bar> + N * \<eta>"
    using Npos by (simp add: field_simps abs_mult)
  moreover have "u * \<bar>a\<bar> \<le> u * 3"
    using a3 by (intro mult_left_mono u(1))
  ultimately have e0: "\<bar>N * v0 - a\<bar> \<le> 3 * u + N * \<eta>"
    by linarith
  have E0: "\<bar>N * v0 - (1 - d)\<bar> \<le> 4 * u + 2 * N * \<eta>"
    using e0 ea etaN by linarith
  have "\<bar>c - d / k\<bar> \<le> u * \<bar>d / k\<bar> + \<eta>"
    unfolding c_def by (rule err)
  then have "k * \<bar>c - d / k\<bar> \<le> k * (u * \<bar>d / k\<bar> + \<eta>)"
    using kpos by (intro mult_left_mono) simp_all
  moreover have "k * \<bar>c - d / k\<bar> = \<bar>k * c - d\<bar>"
  proof -
    have "k * c - d = k * (c - d / k)"
      using kpos by (simp add: field_simps)
    then show ?thesis
      using kpos by (simp add: abs_mult)
  qed
  moreover have "k * (u * \<bar>d / k\<bar> + \<eta>) = u * \<bar>d\<bar> + k * \<eta>"
    using kpos by (simp add: field_simps abs_mult)
  moreover have "u * \<bar>d\<bar> \<le> u * 1"
    using d by (intro mult_left_mono u(1)) simp
  ultimately have ec: "\<bar>k * c - d\<bar> \<le> u + k * \<eta>"
    by linarith
  have kv0: "k * \<bar>v0\<bar> \<le> N * \<bar>v0\<bar>"
    using k(2) by (intro mult_right_mono) simp_all
  have "N * \<bar>v0\<bar> = \<bar>N * v0\<bar>"
    using Npos by (simp add: abs_mult)
  then have Nv0: "N * \<bar>v0\<bar> \<le> 5 + 2 * N * \<eta>"
    using E0 d u(2) by linarith
  have "k * \<bar>c\<bar> = \<bar>k * c\<bar>"
    using kpos by (simp add: abs_mult)
  then have kc: "k * \<bar>c\<bar> \<le> 2 + k * \<eta>"
    using ec d u(2) by linarith
  have "k * \<bar>v0 + c\<bar> \<le> k * (\<bar>v0\<bar> + \<bar>c\<bar>)"
    using kpos by (intro mult_left_mono) simp_all
  then have ksum: "k * \<bar>v0 + c\<bar> \<le> 7 + 3 * N * \<eta>"
    using kv0 Nv0 kc etak by (simp add: algebra_simps)
  have "\<bar>v1 - (v0 + c)\<bar> \<le> u * \<bar>v0 + c\<bar> + \<eta>"
    unfolding v1_def by (rule err)
  then have "k * \<bar>v1 - (v0 + c)\<bar> \<le> k * (u * \<bar>v0 + c\<bar> + \<eta>)"
    using kpos by (intro mult_left_mono) simp_all
  moreover have "k * \<bar>v1 - (v0 + c)\<bar> = \<bar>k * v1 - k * (v0 + c)\<bar>"
  proof -
    have "k * v1 - k * (v0 + c) = k * (v1 - (v0 + c))"
      by (simp add: algebra_simps)
    then show ?thesis
      using kpos by (simp add: abs_mult)
  qed
  moreover have "k * (u * \<bar>v0 + c\<bar> + \<eta>) = u * (k * \<bar>v0 + c\<bar>) + k * \<eta>"
    by (simp add: algebra_simps)
  moreover have "u * (k * \<bar>v0 + c\<bar>) \<le> u * (7 + 3 * N * \<eta>)"
    using ksum by (intro mult_left_mono u(1))
  moreover have "u * (3 * N * \<eta>) \<le> 1 * (3 * N * \<eta>)"
    using u(2) eta(1) Npos by (intro mult_right_mono) simp_all
  ultimately have e1: "\<bar>k * v1 - k * (v0 + c)\<bar> \<le> 7 * u + 4 * N * \<eta>"
    using etak by (simp add: algebra_simps)
  have "(N - k) * v0 + k * v1 - 1
          = (N * v0 - (1 - d)) + (k * v1 - k * (v0 + c)) + (k * c - d)"
    by (simp add: algebra_simps)
  then have "\<bar>(N - k) * v0 + k * v1 - 1\<bar> \<le> 12 * u + 7 * N * \<eta>"
    using E0 e1 ec etak by linarith
  then show ?thesis
    by (simp add: v0_def v1_def a_def c_def)
qed

lemma uniform_sum_error:
  fixes rnd :: "real \<Rightarrow> real" and u \<eta> N :: real
  assumes err: "\<And>x. \<bar>rnd x - x\<bar> \<le> u * \<bar>x\<bar> + \<eta>"
    and u: "0 \<le> u" and eta: "0 \<le> \<eta>" and N: "1 \<le> N"
  shows "\<bar>N * rnd (1 / N) - 1\<bar> \<le> 12 * u + 7 * N * \<eta>"
proof -
  have Npos: "0 < N" using N by linarith
  have "\<bar>rnd (1 / N) - 1 / N\<bar> \<le> u * \<bar>1 / N\<bar> + \<eta>"
    by (rule err)
  then have "N * \<bar>rnd (1 / N) - 1 / N\<bar> \<le> N * (u * \<bar>1 / N\<bar> + \<eta>)"
    using Npos by (intro mult_left_mono) simp_all
  moreover have "N * \<bar>rnd (1 / N) - 1 / N\<bar> = \<bar>N * rnd (1 / N) - 1\<bar>"
  proof -
    have "N * rnd (1 / N) - 1 = N * (rnd (1 / N) - 1 / N)"
      using Npos by (simp add: field_simps)
    then show ?thesis
      using Npos by (simp add: abs_mult)
  qed
  moreover have "N * (u * \<bar>1 / N\<bar> + \<eta>) = u + N * \<eta>"
    using Npos by (simp add: field_simps)
  moreover have "0 \<le> N * \<eta>"
    using Npos eta by simp
  ultimately show ?thesis
    using u by linarith
qed

lemma sum_linked_prob_fl:
  assumes "distinct ks" "fset S \<subseteq> set ks"
  shows "(\<Sum>q\<leftarrow>ks. linked_prob_fl rnd S d n q)
           = (real (length ks) - real (fcard S)) * rnd (rnd (1 - d) / real n)
             + real (fcard S)
               * rnd (rnd (rnd (1 - d) / real n) + rnd (d / real (fcard S)))"
proof -
  let ?v0 = "rnd (rnd (1 - d) / real n)"
  let ?v1 = "rnd (?v0 + rnd (d / real (fcard S)))"
  have "linked_prob_fl rnd S d n = (\<lambda>q. ?v0 + (if q |\<in>| S then ?v1 - ?v0 else 0))"
    by (auto simp: linked_prob_fl_def)
  then have "(\<Sum>q\<leftarrow>ks. linked_prob_fl rnd S d n q)
               = (\<Sum>q\<leftarrow>ks. ?v0) + (\<Sum>q\<leftarrow>ks. if q |\<in>| S then ?v1 - ?v0 else 0)"
    by (simp add: sum_list_addf)
  also have "\<dots> = real (length ks) * ?v0 + (?v1 - ?v0) * real (fcard S)"
    using assms by (simp add: sum_list_const sum_list_indicator card_inter_eq)
  finally show ?thesis
    by (simp add: algebra_simps)
qed

lemma fcard_le_length:
  assumes "distinct ks" "fset S \<subseteq> set ks"
  shows "fcard S \<le> length ks"
proof -
  have "fcard S = card (fset S)"
    by (simp add: fcard.rep_eq)
  also have "\<dots> \<le> card (set ks)"
    using assms(2) by (intro card_mono) simp_all
  also have "\<dots> = length ks"
    using assms(1) by (rule distinct_card)
  finally show ?thesis .
qed

lemma transition_model_fl_sum_error:
  assumes dist: "distinct (keys corpus)"
    and get: "dict_get corpus p = Inr S"
    and sub: "fset S \<subseteq> set (keys corpus)"
    and d: "0 \<le> d" "d \<le> 1"
    and err: "\<And>x. \<bar>rnd x - x\<bar> \<le> u * \<bar>x\<bar> + \<eta>"
    and u: "0 \<le> u" "u \<le> 1" and eta: "0 \<le> \<eta>" "\<eta> \<le> 1"
  shows "\<exists>r. transition_model_fl rnd corpus p d = Inr r \<and> keys r = keys corpus
           \<and> \<bar>sum_list (dict_values r) - 1\<bar> \<le> 12 * u + 7 * real (length corpus) * \<eta>"
proof (cases "S = {||}")
  case True
  have ne: "corpus \<noteq> []"
    using get by (auto simp: dict_get_def)
  then have N: "1 \<le> real (length corpus)"
    by (cases corpus) simp_all
  have tm: "transition_model_fl rnd corpus p d =
     Inr (map (\<lambda>q. (q, rnd (1 / real (length corpus)))) (keys corpus))"
    using transition_model_fl_uniform [OF dist] get True by simp
  have "\<bar>real (length corpus) * rnd (1 / real (length corpus)) - 1\<bar>
          \<le> 12 * u + 7 * real (length corpus) * \<eta>"
    by (rule uniform_sum_error [OF err u(1) eta(1) N])
  then show ?thesis
    by (simp add: tm sum_list_const)
next
  case False
  let ?N = "real (length corpus)"
  let ?k = "real (fcard S)"
  have len: "length (keys corpus) = length corpus"
    by simp
  have k1: "1 \<le> ?k"
    using False by (simp add: Suc_le_eq order_less_le)
  have kN: "?k \<le> ?N"
    using fcard_le_length [OF dist sub] by simp
  have tm: "transition_model_fl rnd corpus p d =
     Inr (map (\<lambda>q. (q, linked_prob_fl rnd S d (length corpus) q)) (keys corpus))"
    by (rule transition_model_fl_linked [OF dist get False])
  have "(\<Sum>q\<leftarrow>keys corpus. linked_prob_fl rnd S d (length corpus) q)
          = (?N - ?k) * rnd (rnd (1 - d) / ?N)
            + ?k * rnd (rnd (rnd (1 - d) / ?N) + rnd (d / ?k))"
    using sum_linked_prob_fl [OF dist sub, of rnd d "length corpus"] by simp
  moreover have "\<bar>(?N - ?k) * rnd (rnd (1 - d) / ?N)
            + ?k * rnd (rnd (rnd (1 - d) / ?N) + rnd (d / ?k)) - 1\<bar> \<le> 12 * u + 7 * ?N * \<eta>"
    by (rule linked_sum_error [OF err u eta d k1 kN])
  ultimately show ?thesis
    by (simp add: tm)
qed

lemma transition_model_fl_sum_bound:
  assumes dist: "distinct (keys corpus)"
    and get: "dict_get corpus p = Inr S"
    and sub: "fset S \<subseteq> set (keys corpus)"
    and d: "0 \<le> d" "d \<le> 1"
    and len: "length corpus \<le> 2 ^ 53"
  shows "\<exists>r. transition_model_fl round64 corpus p d = Inr r \<and> keys r = keys corpus
           \<and> \<bar>sum_list (dict_values r) - 1\<bar> \<le> 1 / 10 ^ 9"
proof -
  have err: "\<bar>round64 x - x\<bar> \<le> 1 / 2 ^ 53 * \<bar>x\<bar> + 1 / 2 ^ 1075" for x
    using round64_error [of x] by simp
  obtain r where r: "transition_model_fl round64 corpus p d = Inr r" "keys r = keys corpus"
    and bound: "\<bar>sum_list (dict_values r) - 1\<bar>
                  \<le> 12 * (1 / 2 ^ 53) + 7 * real (length corpus) * (1 / 2 ^ 1075)"
    using transition_model_fl_sum_error [OF dist get sub d err] by auto
  have "real (length corpus) \<le> 2 ^ 53"
    using len by (metis of_nat_le_iff of_nat_numeral of_nat_power)
  then have "7 * real (length corpus) * (1 / 2 ^ 1075) \<le> 7 * 2 ^ 53 * (1 / 2 ^ 1075)"
    by (intro mult_right_mono mult_left_mono) simp_all
  moreover have "12 * (1 / 2 ^ 53) + 7 * 2 ^ 53 * (1 / 2 ^ 1075) \<le> (1 :: real) / 10 ^ 9"
    by simp
  ultimately have "\<bar>sum_list (dict_values r) - 1\<bar> \<le> 1 / 10 ^ 9"
    using bound by linarith
  with r show ?thesis
    by blast
qed

text \<open>
  Claim C2. On a link graph (closed universe), for a page \<open>p\<close> of the graph and a damping
  factor in \<open>[0, 1]\<close>, \<^verbatim>\<open>transition_model\<close> returns a distribution over exactly the pages of
  the graph whose values sum to 1 in exact arithmetic. In binary64 arithmetic, on a graph of
  at most \<open>2 ^ 53\<close> pages (so that \<^verbatim>\<open>total_pages\<close> is converted without error), the floats it
  returns sum to 1 within \<open>10 ^ (- 9)\<close>.
\<close>

theorem transition_model_is_distribution:
  assumes "distinct (keys corpus)" and "closed_universe corpus"
    and "p \<in> set (keys corpus)" and "0 \<le> d" and "d \<le> 1"
  shows "(\<exists>r. transition_model corpus p d = Inr r \<and> keys r = keys corpus
             \<and> sum_list (dict_values r) = 1)
       \<and> (length corpus \<le> 2 ^ 53 \<longrightarrow>
            (\<exists>r. transition_model_fl round64 corpus p d = Inr r \<and> keys r = keys corpus
               \<and> \<bar>sum_list (dict_values r) - 1\<bar> \<le> 1 / 10 ^ 9))"
proof -
  from assms(3) obtain S where mem: "(p, S) \<in> set corpus"
    by (auto simp: keys_def)
  then have get: "dict_get corpus p = Inr S"
    by (rule dict_get_distinct [OF assms(1)])
  from mem assms(2) have sub: "fset S \<subseteq> set (keys corpus)"
    by (auto simp: closed_universe_def)
  from transition_model_sum_at [OF assms(1) get sub]
    transition_model_fl_sum_bound [OF assms(1) get sub assms(4,5)]
  show ?thesis
    by blast
qed

theorem transition_model_is_distribution_witness:
  "(\<exists>r. transition_model [(''A'', {|''B''|}), (''B'', {||})] ''A'' (85 / 100) = Inr r
       \<and> keys r = [''A'', ''B''] \<and> sum_list (dict_values r) = 1)
   \<and> (\<exists>r. transition_model_fl round64 [(''A'', {|''B''|}), (''B'', {||})] ''A'' (85 / 100) = Inr r
       \<and> keys r = [''A'', ''B''] \<and> \<bar>sum_list (dict_values r) - 1\<bar> \<le> 1 / 10 ^ 9)"
proof -
  have closed: "closed_universe [(''A'', {|''B''|}), (''B'', {||})]"
    by (simp add: closed_universe_def)
  from transition_model_is_distribution
    [of "[(''A'', {|''B''|}), (''B'', {||})]" "''A''" "85 / 100"] closed
  show ?thesis
    by simp
qed

section \<open>Neighbours and non-neighbours\<close>

text \<open>
  Claim C4 says that a neighbour's value is strictly greater than a non-neighbour's
  whenever \<open>d > 0\<close>. On the link graph \<^verbatim>\<open>{"A": {"B"}, "B": {"A"}}\<close> with the damping factor
  \<open>2 ^ (- 70)\<close>, a binary64 number, the program computes \<open>1 - d\<close> as \<open>1\<close> and \<open>0.5 + d\<close> as
  \<open>0.5\<close>: the neighbour \<open>B\<close> of \<open>A\<close> and the non-neighbour \<open>A\<close> both get \<open>0.5\<close>.
\<close>

theorem transition_model_absorbs_counterexample:
  "transition_model_fl round64 [(''A'', {|''B''|}), (''B'', {|''A''|})] ''A'' (1 / 2 ^ 70)
     = Inr [(''A'', 1 / 2), (''B'', 1 / 2)]
   \<and> ''B'' |\<in>| {|''B''|} \<and> ''A'' |\<notin>| {|''B''|} \<and> (0 :: real) < 1 / 2 ^ 70"
proof -
  define d :: real where "d = 1 / 2 ^ 70"
  have r1: "round64 (1 - d) = 1"
    unfolding d_def using round64_eval [of "1 - 1 / 2 ^ 70" "- 1"] by (simp add: round_even_def)
  have r2: "round64 (1 / 2) = 1 / 2"
    using round64_eval [of "1 / 2" "- 1"] by simp
  have r3: "round64 d = d"
    unfolding d_def using round64_eval [of "1 / 2 ^ 70" "- 70"] by (simp add: round_even_def)
  have r4: "round64 (1 / 2 + d) = 1 / 2"
    unfolding d_def using round64_eval [of "1 / 2 + 1 / 2 ^ 70" "- 1"]
    by (simp add: round_even_def)
  have fc: "fcard {|''B''|} = 1"
    by (simp add: fcard_finsert_if fcard_fempty)
  have get: "dict_get [(''A'', {|''B''|}), (''B'', {|''A''|})] ''A'' = Inr {|''B''|}"
    by (simp add: dict_get_def)
  have "transition_model_fl round64 [(''A'', {|''B''|}), (''B'', {|''A''|})] ''A'' d
     = Inr [(''A'', 1 / 2), (''B'', 1 / 2)]"
    by (simp add: transition_model_fl_linked [OF _ get] linked_prob_fl_def fc r1 r2 r3 r4)
  then show ?thesis
    by (simp add: d_def)
qed

text \<open>
  Claim C4, as the code has it. On a link graph, for a page \<open>p\<close> with non-empty neighbour
  set \<open>S\<close> of size \<open>k\<close> and a damping factor in \<open>[0, 1]\<close>, every page outside \<open>S\<close> gets
  \<open>(1 - d)/N\<close> and every member of \<open>S\<close> gets \<open>(1 - d)/N + d/k\<close>, each operation rounded. Under
  every rounding the neighbours' value is at least the non-neighbours' value. In exact
  arithmetic the values are exactly \<open>(1 - d)/N\<close> and \<open>(1 - d)/N + d/k\<close> and the first is
  strictly smaller when \<open>d > 0\<close>.
\<close>

theorem transition_model_neighbours_rounded:
  assumes "distinct (keys corpus)" and "closed_universe corpus"
    and "dict_get corpus p = Inr S" and "S \<noteq> {||}"
    and "0 \<le> d" and "d \<le> 1" and "rounding rnd"
  shows "(\<exists>r. transition_model_fl rnd corpus p d = Inr r \<and> keys r = keys corpus
           \<and> (\<forall>q \<in> set (keys corpus). q |\<notin>| S \<longrightarrow>
                 dict_get r q = Inr (rnd (rnd (1 - d) / real (length corpus))))
           \<and> (\<forall>q. q |\<in>| S \<longrightarrow>
                 dict_get r q = Inr (rnd (rnd (rnd (1 - d) / real (length corpus))
                                           + rnd (d / real (fcard S)))))
           \<and> rnd (rnd (1 - d) / real (length corpus))
                \<le> rnd (rnd (rnd (1 - d) / real (length corpus)) + rnd (d / real (fcard S))))
       \<and> (\<exists>r. transition_model corpus p d = Inr r \<and> keys r = keys corpus
           \<and> (\<forall>q \<in> set (keys corpus). q |\<notin>| S \<longrightarrow>
                 dict_get r q = Inr ((1 - d) / real (length corpus)))
           \<and> (\<forall>q. q |\<in>| S \<longrightarrow>
                 dict_get r q = Inr ((1 - d) / real (length corpus) + d / real (fcard S)))
           \<and> (0 < d \<longrightarrow>
                 (1 - d) / real (length corpus)
                   < (1 - d) / real (length corpus) + d / real (fcard S)))"
proof -
  let ?N = "real (length corpus)"
  let ?k = "real (fcard S)"
  let ?base = "rnd (rnd (1 - d) / ?N)"
  have k: "0 < ?k"
    using assms(4) by (simp add: Suc_le_eq order_less_le)
  have mem: "(p, S) \<in> set corpus"
    using assms(3) by (rule dict_get_mem)
  with assms(2) have inS: "q \<in> set (keys corpus)" if "q |\<in>| S" for q
    using that by (auto simp: closed_universe_def)
  have zero: "rnd 0 = 0" and mono: "\<And>x y. x \<le> y \<Longrightarrow> rnd x \<le> rnd y"
    and idem: "\<And>x. rnd (rnd x) = rnd x"
    using assms(7) by (simp_all add: rounding_def)
  have "0 \<le> d / ?k"
    using assms(5) by simp
  then have "rnd 0 \<le> rnd (d / ?k)"
    by (rule mono)
  then have inc: "0 \<le> rnd (d / ?k)"
    by (simp add: zero)
  have "rnd ?base \<le> rnd (?base + rnd (d / ?k))"
    using inc by (intro mono) simp
  then have le: "?base \<le> rnd (?base + rnd (d / ?k))"
    by (simp add: idem)
  have fl: "transition_model_fl rnd corpus p d =
      Inr (map (\<lambda>q. (q, linked_prob_fl rnd S d (length corpus) q)) (keys corpus))"
    by (rule transition_model_fl_linked [OF assms(1,3,4)])
  have exact: "transition_model corpus p d =
      Inr (map (\<lambda>q. (q, linked_prob S d (length corpus) q)) (keys corpus))"
    using transition_model_closed_form [OF assms(1,3), of d] assms(4) by simp
  have first: "\<exists>r. transition_model_fl rnd corpus p d = Inr r \<and> keys r = keys corpus
           \<and> (\<forall>q \<in> set (keys corpus). q |\<notin>| S \<longrightarrow> dict_get r q = Inr ?base)
           \<and> (\<forall>q. q |\<in>| S \<longrightarrow> dict_get r q = Inr (rnd (?base + rnd (d / ?k))))
           \<and> ?base \<le> rnd (?base + rnd (d / ?k))"
    using le inS by (simp add: fl dict_get_map_key linked_prob_fl_def)
  have second: "\<exists>r. transition_model corpus p d = Inr r \<and> keys r = keys corpus
           \<and> (\<forall>q \<in> set (keys corpus). q |\<notin>| S \<longrightarrow> dict_get r q = Inr ((1 - d) / ?N))
           \<and> (\<forall>q. q |\<in>| S \<longrightarrow> dict_get r q = Inr ((1 - d) / ?N + d / ?k))
           \<and> (0 < d \<longrightarrow> (1 - d) / ?N < (1 - d) / ?N + d / ?k)"
    using k inS by (simp add: exact dict_get_map_key linked_prob_def)
  from first second show ?thesis
    by blast
qed

theorem transition_model_neighbours_rounded_witness:
  "\<exists>r. transition_model_fl round64 [(''A'', {|''B''|}), (''B'', {|''A''|})] ''A'' (1 / 2) = Inr r
       \<and> dict_get r ''A'' = Inr (1 / 4) \<and> dict_get r ''B'' = Inr (3 / 4)"
proof -
  let ?g = "[(''A'', {|''B''|}), (''B'', {|''A''|})] :: string corpus"
  have r1: "round64 (1 / 2) = 1 / 2"
    using round64_eval [of "1 / 2" "- 1"] by simp
  have r2: "round64 (1 / 4) = 1 / 4"
    using round64_eval [of "1 / 4" "- 2"] by simp
  have r3: "round64 (3 / 4) = 3 / 4"
    using round64_eval [of "3 / 4" "- 1"] by simp
  have fc: "fcard {|''B''|} = 1"
    by (simp add: fcard_finsert_if fcard_fempty)
  have get: "dict_get ?g ''A'' = Inr {|''B''|}"
    by (simp add: dict_get_def)
  have closed: "closed_universe ?g"
    by (simp add: closed_universe_def)
  have half: "(0 :: real) \<le> 1 / 2" "(1 :: real) / 2 \<le> 1"
    by simp_all
  from transition_model_neighbours_rounded [OF _ closed get _ half rounding_round64]
  obtain r where run: "transition_model_fl round64 ?g ''A'' (1 / 2) = Inr r"
    and A: "dict_get r ''A'' = Inr (round64 (round64 (1 - 1 / 2) / real (length ?g)))"
    and B: "dict_get r ''B'' = Inr (round64 (round64 (round64 (1 - 1 / 2) / real (length ?g))
                                           + round64 (1 / 2 / real (fcard {|''B''|}))))"
    by auto
  have "round64 (round64 (1 - 1 / 2) / real (length ?g)) = 1 / 4"
    by (simp add: r1 r2)
  moreover have "round64 (round64 (round64 (1 - 1 / 2) / real (length ?g))
                                           + round64 (1 / 2 / real (fcard {|''B''|}))) = 3 / 4"
    by (simp add: r1 r2 r3 fc)
  ultimately show ?thesis
    using run A B by auto
qed

section \<open>The crawler returns a link graph\<close>

lemma keys_dict_set:
  "keys (dict_set d k v) = (if k \<in> set (keys d) then keys d else keys d @ [k])"
  by (induction d) auto

lemma distinct_dict_set: "distinct (keys d) \<Longrightarrow> distinct (keys (dict_set d k v))"
  by (simp add: keys_dict_set)

lemma map_of_dict_set: "map_of (dict_set d k v) = (map_of d)(k \<mapsto> v)"
  by (induction d) auto

lemma mem_dict_iff: "distinct (keys d) \<Longrightarrow> (k, v) \<in> set d \<longleftrightarrow> map_of d k = Some v"
  by (auto simp: keys_def dest: map_of_SomeD)

lemma crawl_read_inv:
  assumes "crawl_read findall listing pages = Inr g"
    and "distinct (keys pages)"
    and "\<forall>p l. map_of pages p = Some l \<longrightarrow> p |\<notin>| l"
  shows "distinct (keys g) \<and> (\<forall>p l. map_of g p = Some l \<longrightarrow> p |\<notin>| l)"
  using assms
proof (induction listing arbitrary: pages)
  case Nil
  then show ?case by simp
next
  case (Cons entry listing)
  obtain filename fl where entry: "entry = (filename, fl)"
    by (cases entry)
  show ?case
  proof (cases "endswith filename ''.html''")
    case False
    with Cons.prems entry have "crawl_read findall listing pages = Inr g"
      by simp
    from Cons.IH [OF this Cons.prems(2,3)] show ?thesis .
  next
    case True
    with Cons.prems(1) entry obtain contents where fl: "fl = Some contents"
      by (cases fl) auto
    let ?pages = "dict_set pages filename (fset_of_list (findall contents) |-| {|filename|})"
    have run: "crawl_read findall listing ?pages = Inr g"
      using Cons.prems(1) entry True fl by simp
    have "\<forall>p l. map_of ?pages p = Some l \<longrightarrow> p |\<notin>| l"
      using Cons.prems(3) by (auto simp: map_of_dict_set)
    from Cons.IH [OF run distinct_dict_set [OF Cons.prems(2)] this] show ?thesis .
  qed
qed

lemma crawl_filter_result:
  assumes "set ks \<subseteq> set (keys pages)"
  shows "\<exists>g. crawl_filter ks pages = Inr g \<and> keys g = keys pages \<and>
           (\<forall>p. map_of g p =
              (if p \<in> set ks
               then map_option (ffilter (\<lambda>link. link \<in> set (keys pages))) (map_of pages p)
               else map_of pages p))"
  using assms
proof (induction ks arbitrary: pages)
  case Nil
  then show ?case by simp
next
  case (Cons k ks)
  from Cons.prems have "k \<in> set (keys pages)"
    by simp
  then obtain links where links: "map_of pages k = Some links"
    by (cases "map_of pages k") (auto simp: keys_def map_of_eq_None_iff)
  let ?K = "\<lambda>link. link \<in> set (keys pages)"
  let ?pages = "dict_set pages k (ffilter ?K links)"
  have keys: "keys ?pages = keys pages"
    using \<open>k \<in> set (keys pages)\<close> by (simp add: keys_dict_set)
  with Cons.prems have "set ks \<subseteq> set (keys ?pages)"
    by simp
  from Cons.IH [OF this] obtain g where g: "crawl_filter ks ?pages = Inr g"
    "keys g = keys ?pages"
    "\<forall>p. map_of g p =
        (if p \<in> set ks
         then map_option (ffilter (\<lambda>link. link \<in> set (keys ?pages))) (map_of ?pages p)
         else map_of ?pages p)"
    by blast
  have "crawl_filter (k # ks) pages = Inr g"
    using links g(1) by (simp add: dict_get_def)
  moreover have "keys g = keys pages"
    using g(2) keys by simp
  moreover have "map_of g p =
      (if p \<in> set (k # ks) then map_option (ffilter ?K) (map_of pages p) else map_of pages p)" for p
    using g(3) links by (auto simp: keys map_of_dict_set)
  ultimately show ?case by blast
qed

text \<open>
  Claim C9. Whatever the directory holds and whatever links the search finds in its files,
  a graph that \<^verbatim>\<open>crawl\<close> returns has distinct keys, every page of every neighbour set is
  a key (closed universe), and no page is in its own neighbour set.
\<close>

theorem crawl_invariant:
  assumes "crawl findall directory = Inr g"
  shows "distinct (keys g) \<and> closed_universe g \<and> no_self_links g"
proof -
  from assms obtain listing pages where dir: "directory = Some listing"
    and read: "crawl_read findall listing [] = Inr pages"
    and filter: "crawl_filter (keys pages) pages = Inr g"
    by (auto simp: crawl_def split: option.splits sum.splits)
  from crawl_read_inv [OF read] have dist: "distinct (keys pages)"
    and noself: "\<forall>p l. map_of pages p = Some l \<longrightarrow> p |\<notin>| l"
    by simp_all
  from crawl_filter_result [of "keys pages" pages] filter
  have keys: "keys g = keys pages"
    and vals: "\<forall>p. map_of g p =
       (if p \<in> set (keys pages)
        then map_option (ffilter (\<lambda>link. link \<in> set (keys pages))) (map_of pages p)
        else map_of pages p)"
    by auto
  have dg: "distinct (keys g)"
    using keys dist by simp
  have entry: "\<exists>l'. map_of pages p = Some l' \<and> l = ffilter (\<lambda>link. link \<in> set (keys pages)) l'"
    if "(p, l) \<in> set g" for p l
  proof -
    from that dg have "map_of g p = Some l"
      by (simp add: mem_dict_iff)
    moreover have "p \<in> set (keys g)"
      using that by (force simp: keys_def)
    then have "p \<in> set (keys pages)"
      using keys by simp
    ultimately show ?thesis
      using vals by auto
  qed
  have "closed_universe g"
    unfolding closed_universe_def using entry keys by fastforce
  moreover have "no_self_links g"
    unfolding no_self_links_def using entry noself by fastforce
  ultimately show ?thesis
    using dg by simp
qed

theorem crawl_invariant_witness:
  "crawl (\<lambda>contents. [''1.html'', ''2.html'', ''9.html''])
      (Some [(''1.html'', Some ''x''), (''notes.txt'', None), (''2.html'', Some ''y'')])
     = Inr [(''1.html'', {|''2.html''|}), (''2.html'', {|''1.html''|})]
   \<and> closed_universe [(''1.html'', {|''2.html''|}), (''2.html'', {|''1.html''|})]
   \<and> no_self_links [(''1.html'', {|''2.html''|}), (''2.html'', {|''1.html''|})]"
proof -
  have run: "crawl (\<lambda>contents. [''1.html'', ''2.html'', ''9.html''])
      (Some [(''1.html'', Some ''x''), (''notes.txt'', None), (''2.html'', Some ''y'')])
     = Inr [(''1.html'', {|''2.html''|}), (''2.html'', {|''1.html''|})]"
    by (simp add: crawl_def endswith_def dict_get_def) (auto simp: fset_eq_iff)
  show ?thesis
    using crawl_invariant [OF run] run by simp
qed

section \<open>One round of the iteration\<close>

lemma initial_ranks_closed_form:
  "N \<noteq> 0 \<or> ks = [] \<Longrightarrow> initial_ranks ks N = Inr (map (\<lambda>p. (p, 1 / real N)) ks)"
  by (induction ks) (auto simp: truediv_def)

lemma initial_ranks_start: "initial_ranks (keys corpus) (length corpus) = Inr (start_rank corpus)"
  unfolding start_rank_def by (rule initial_ranks_closed_form) auto

lemma dict_get_rank_of: "p \<in> set (keys r) \<Longrightarrow> dict_get r p = Inr (rank_of r p)"
  by (cases "map_of r p") (auto simp: dict_get_def rank_of_def keys_def map_of_eq_None_iff)

lemma linker_loop_closed_form:
  assumes "distinct (keys corpus)"
    and "set entries \<subseteq> set corpus"
    and "set (keys corpus) \<subseteq> set (keys pagerank)"
  shows "linker_loop (keys entries) corpus pagerank (length corpus) page t =
           Inr (t + (\<Sum>entry\<leftarrow>entries. contribution (length corpus) pagerank page entry))"
  using assms(2)
proof (induction entries arbitrary: t)
  case Nil
  then show ?case by simp
next
  case (Cons entry entries)
  obtain q links where entry: "entry = (q, links)"
    by (cases entry)
  from Cons.prems entry have mem: "(q, links) \<in> set corpus" and rest: "set entries \<subseteq> set corpus"
    by auto
  have get: "dict_get corpus q = Inr links"
    by (rule dict_get_distinct [OF assms(1) mem])
  have "q \<in> set (keys corpus)"
    using mem by (force simp: keys_def)
  then have pr: "dict_get pagerank q = Inr (rank_of pagerank q)"
    using assms(3) by (auto intro: dict_get_rank_of)
  have N: "real (length corpus) \<noteq> 0"
    using mem by auto
  have k: "links \<noteq> {||} \<Longrightarrow> real (fcard links) \<noteq> 0"
    by simp
  show ?case
    using N k
    by (simp add: entry get pr truediv_def contribution_def Cons.IH [OF rest] add.assoc)
qed

lemma page_loop_closed_form:
  assumes "distinct (keys corpus)"
    and "set (keys corpus) \<subseteq> set (keys pagerank)"
    and "distinct ps" and "set ps \<inter> set (keys new_rank) = {}"
    and "corpus \<noteq> []"
  shows "page_loop ps corpus pagerank (length corpus) d new_rank =
           Inr (new_rank @ map (\<lambda>p. (p, spec_new_rank corpus d pagerank p)) ps)"
  using assms(3,4)
proof (induction ps arbitrary: new_rank)
  case Nil
  then show ?case by simp
next
  case (Cons p ps)
  have fresh: "p \<notin> set (keys new_rank)"
    using Cons.prems(2) by auto
  have disj: "set ps \<inter> set (keys (new_rank @ [(p, v)])) = {}" for v
    using Cons.prems by (auto simp: keys_def)
  have dist: "distinct ps"
    using Cons.prems(1) by simp
  have inner: "linker_loop (keys corpus) corpus pagerank (length corpus) p 0 =
      Inr (\<Sum>entry\<leftarrow>corpus. contribution (length corpus) pagerank p entry)"
    using linker_loop_closed_form [OF assms(1) subset_refl assms(2), of p 0] by simp
  show ?case
    using assms(5) fresh
    by (simp add: inner truediv_def dict_set_fresh spec_new_rank_def Cons.IH [OF dist disj])
qed

lemma compute_new_rank_closed_form:
  assumes "distinct (keys corpus)" and "set (keys corpus) \<subseteq> set (keys pagerank)"
  shows "compute_new_rank corpus d pagerank = Inr (next_rank corpus d pagerank)"
proof (cases "corpus = []")
  case True
  then show ?thesis by (simp add: compute_new_rank_def next_rank_def)
next
  case False
  show ?thesis
    unfolding compute_new_rank_def next_rank_def
    using page_loop_closed_form [OF assms(1,2) assms(1) _ False, of "[]" d] by simp
qed

lemma all_converged_closed_form:
  assumes "set ks \<subseteq> set (keys new_rank)" and "set ks \<subseteq> set (keys pagerank)"
  shows "all_converged ks new_rank pagerank thr =
           Inr (\<forall>p \<in> set ks. \<bar>rank_of new_rank p - rank_of pagerank p\<bar> < thr)"
  using assms
  by (induction ks) (auto simp: dict_get_rank_of)

lemma keys_next_rank [simp]: "keys (next_rank corpus d pagerank) = keys corpus"
  by (simp add: next_rank_def keys_def comp_def)

lemma keys_start_rank [simp]: "keys (start_rank corpus) = keys corpus"
  by (simp add: start_rank_def keys_def comp_def)

lemma keys_adopted [simp]: "keys (adopted corpus d k) = keys corpus"
  by (cases k) (simp_all add: adopted_def)

lemma adopted_Suc: "adopted corpus d (Suc k) = next_rank corpus d (adopted corpus d k)"
  by (simp add: adopted_def)

lemma adopted_0: "adopted corpus d 0 = start_rank corpus"
  by (simp add: adopted_def)

lemma iterate_loop_step:
  assumes "distinct (keys corpus)" and "keys pagerank = keys corpus"
  shows "iterate_loop corpus d pagerank =
           (if settled (next_rank corpus d pagerank) pagerank then Some (Inr pagerank)
            else iterate_loop corpus d (next_rank corpus d pagerank))"
proof -
  have new: "compute_new_rank corpus d pagerank = Inr (next_rank corpus d pagerank)"
    using assms by (intro compute_new_rank_closed_form) simp_all
  have test: "all_converged (keys pagerank) (next_rank corpus d pagerank) pagerank
                convergence_threshold = Inr (settled (next_rank corpus d pagerank) pagerank)"
    unfolding settled_def using assms(2) by (intro all_converged_closed_form) simp_all
  show ?thesis
    by (subst iterate_loop.simps) (simp add: new test)
qed

section \<open>The loop of the iterative estimator\<close>

lemma iterate_loop_from:
  assumes "distinct (keys corpus)"
    and "\<forall>j. i \<le> j \<and> j < k \<longrightarrow> \<not> settled (adopted corpus d (Suc j)) (adopted corpus d j)"
    and "settled (adopted corpus d (Suc k)) (adopted corpus d k)"
    and "i \<le> k"
  shows "iterate_loop corpus d (adopted corpus d i) = Some (Inr (adopted corpus d k))"
  using assms(2,4)
proof (induction "k - i" arbitrary: i)
  case 0
  then have "i = k" by simp
  then show ?case
    using assms(3) by (simp add: iterate_loop_step [OF assms(1)] adopted_Suc)
next
  case (Suc n)
  then have lt: "i < k" and n: "n = k - Suc i" and le: "Suc i \<le> k"
    by simp_all
  from Suc.prems(1) lt have "\<not> settled (adopted corpus d (Suc i)) (adopted corpus d i)"
    by simp
  moreover have "iterate_loop corpus d (adopted corpus d (Suc i)) = Some (Inr (adopted corpus d k))"
    using Suc.hyps(1) [OF n _ le] Suc.prems(1) by simp
  ultimately show ?case
    by (simp add: iterate_loop_step [OF assms(1), of "adopted corpus d i"] adopted_Suc)
qed

lemma iterate_loop_Some_not_adopted:
  assumes "iterate_loop corpus d pagerank = Some res"
  shows "distinct (keys corpus)
           \<and> (\<forall>j. \<not> settled (adopted corpus d (Suc j)) (adopted corpus d j))
         \<longrightarrow> (\<forall>i. pagerank \<noteq> adopted corpus d i)"
proof (rule iterate_loop.raw_induct
    [where P = "\<lambda>corpus d pagerank res. distinct (keys corpus)
           \<and> (\<forall>j. \<not> settled (adopted corpus d (Suc j)) (adopted corpus d j))
         \<longrightarrow> (\<forall>i. pagerank \<noteq> adopted corpus d i)", OF _ assms])
  fix loop :: "'a corpus \<Rightarrow> real \<Rightarrow> 'a ranks \<Rightarrow> (py_error + 'a ranks) option"
    and corpus d pagerank res
  assume IH: "\<And>corpus d pagerank res. loop corpus d pagerank = Some res \<Longrightarrow>
      distinct (keys corpus)
        \<and> (\<forall>j. \<not> settled (adopted corpus d (Suc j)) (adopted corpus d j))
      \<longrightarrow> (\<forall>i. pagerank \<noteq> adopted corpus d i)"
    and step: "(case compute_new_rank corpus d pagerank of
        Inl e \<Rightarrow> Some (Inl e)
      | Inr new_rank \<Rightarrow>
          (case all_converged (keys pagerank) new_rank pagerank convergence_threshold of
             Inl e \<Rightarrow> Some (Inl e)
           | Inr stop \<Rightarrow>
               if stop then Some (Inr pagerank) else loop corpus d new_rank)) = Some res"
  show "distinct (keys corpus)
        \<and> (\<forall>j. \<not> settled (adopted corpus d (Suc j)) (adopted corpus d j))
      \<longrightarrow> (\<forall>i. pagerank \<noteq> adopted corpus d i)"
  proof (intro impI allI notI)
    fix i
    assume hyp: "distinct (keys corpus)
        \<and> (\<forall>j. \<not> settled (adopted corpus d (Suc j)) (adopted corpus d j))"
      and eq: "pagerank = adopted corpus d i"
    have new: "compute_new_rank corpus d pagerank = Inr (adopted corpus d (Suc i))"
      using hyp by (simp add: eq compute_new_rank_closed_form adopted_Suc)
    have test: "all_converged (keys pagerank) (adopted corpus d (Suc i)) pagerank
                  convergence_threshold = Inr False"
      using hyp by (simp add: eq all_converged_closed_form settled_def)
    from step have "loop corpus d (adopted corpus d (Suc i)) = Some res"
      by (simp add: new test)
    from IH [OF this] hyp show False
      by blast
  qed
qed

lemma iterate_loop_never_settled:
  assumes "distinct (keys corpus)"
    and "\<forall>j. \<not> settled (adopted corpus d (Suc j)) (adopted corpus d j)"
  shows "iterate_loop corpus d (start_rank corpus) = None"
proof (rule ccontr)
  assume "iterate_loop corpus d (start_rank corpus) \<noteq> None"
  then obtain res where "iterate_loop corpus d (start_rank corpus) = Some res"
    by auto
  from iterate_loop_Some_not_adopted [OF this] assms
  have "start_rank corpus \<noteq> adopted corpus d 0"
    by blast
  then show False
    by (simp add: adopted_0)
qed

section \<open>Normalisation and the result of the iterative estimator\<close>

lemma dict_get_middle:
  "p \<notin> set (keys done) \<Longrightarrow> dict_get (done @ (p, v) # todo) p = Inr v"
  by (induction "done") (auto simp: dict_get_def)

lemma dict_set_middle:
  "p \<notin> set (keys done) \<Longrightarrow> dict_set (done @ (p, v) # todo) p w = done @ (p, w) # todo"
  by (induction "done") auto

lemma normalize_loop_closed_form:
  assumes "distinct (keys (done @ todo))" and "t \<noteq> 0"
  shows "normalize_loop (keys todo) t (done @ todo) =
           Inr (done @ map (\<lambda>(p, v). (p, v / t)) todo)"
  using assms(1)
proof (induction todo arbitrary: "done")
  case Nil
  then show ?case by simp
next
  case (Cons entry todo)
  obtain p v where entry: "entry = (p, v)"
    by (cases entry)
  have fresh: "p \<notin> set (keys done)"
    using Cons.prems by (auto simp: entry keys_def)
  have "distinct (keys ((done @ [(p, v / t)]) @ todo))"
    using Cons.prems by (auto simp: entry keys_def)
  from Cons.IH [OF this] show ?case
    using assms(2) fresh
    by (simp add: entry dict_get_middle dict_set_middle truediv_def)
qed

lemma normalize_loop_zero:
  "pagerank = done @ (p, v) # todo \<Longrightarrow> p \<notin> set (keys done) \<Longrightarrow>
     normalize_loop (p # ps) 0 pagerank = Inl ZeroDivisionError"
  by (simp add: dict_get_middle truediv_def)

lemma normalize_closed_form:
  assumes "distinct (keys pagerank)"
  shows "normalize pagerank =
           (if pagerank \<noteq> [] \<and> sum_list (dict_values pagerank) = 0 then Inl ZeroDivisionError
            else Inr (scaled pagerank))"
proof (cases "pagerank = []")
  case True
  then show ?thesis
    by (simp add: normalize_def scaled_def)
next
  case False
  then obtain p v todo where pr: "pagerank = (p, v) # todo"
    by (cases pagerank) auto
  show ?thesis
  proof (cases "sum_list (dict_values pagerank) = 0")
    case True
    have "normalize_loop (keys pagerank) 0 pagerank = Inl ZeroDivisionError"
      using normalize_loop_zero [of pagerank "[]" p v todo "keys todo"] pr by simp
    then show ?thesis
      using True False by (simp add: normalize_def)
  next
    case nz: False
    show ?thesis
      using normalize_loop_closed_form [of "[]" pagerank, OF _ nz] assms nz
      by (simp add: normalize_def scaled_def)
  qed
qed

lemma distinct_adopted: "distinct (keys corpus) \<Longrightarrow> distinct (keys (adopted corpus d k))"
  by simp

lemma iterate_loop_first_settled:
  assumes "distinct (keys corpus)" and "first_settled corpus d k"
  shows "iterate_loop corpus d (start_rank corpus) = Some (Inr (adopted corpus d k))"
  using iterate_loop_from [OF assms(1), of 0 k d] assms(2)
  by (simp add: first_settled_def adopted_Suc adopted_0)

lemma first_settled_exists:
  assumes "settled (next_rank corpus d (adopted corpus d n)) (adopted corpus d n)"
  shows "\<exists>k\<le>n. first_settled corpus d k"
proof -
  let ?P = "\<lambda>k. settled (next_rank corpus d (adopted corpus d k)) (adopted corpus d k)"
  have "?P (LEAST k. ?P k)"
    using assms by (rule LeastI)
  moreover have "\<not> ?P j" if "j < (LEAST k. ?P k)" for j
    using that by (rule not_less_Least)
  moreover have "(LEAST k. ?P k) \<le> n"
    using assms by (rule Least_le)
  ultimately show ?thesis
    unfolding first_settled_def by blast
qed

lemma iterate_loop_start_cases:
  assumes "distinct (keys corpus)"
  shows "iterate_loop corpus d (start_rank corpus) = Some res
           \<longleftrightarrow> (\<exists>k. first_settled corpus d k \<and> res = Inr (adopted corpus d k))"
proof
  assume run: "iterate_loop corpus d (start_rank corpus) = Some res"
  have "\<exists>n. settled (next_rank corpus d (adopted corpus d n)) (adopted corpus d n)"
  proof (rule ccontr)
    assume "\<not> ?thesis"
    then have "\<forall>j. \<not> settled (adopted corpus d (Suc j)) (adopted corpus d j)"
      by (simp add: adopted_Suc)
    from iterate_loop_never_settled [OF assms this] run show False
      by simp
  qed
  then obtain k where k: "first_settled corpus d k"
    using first_settled_exists by blast
  from iterate_loop_first_settled [OF assms k] run have "res = Inr (adopted corpus d k)"
    by simp
  with k show "\<exists>k. first_settled corpus d k \<and> res = Inr (adopted corpus d k)"
    by blast
next
  assume "\<exists>k. first_settled corpus d k \<and> res = Inr (adopted corpus d k)"
  then show "iterate_loop corpus d (start_rank corpus) = Some res"
    using iterate_loop_first_settled [OF assms] by blast
qed

lemma iterate_pagerank_first_settled:
  assumes "distinct (keys corpus)" and "first_settled corpus d k"
  shows "iterate_pagerank corpus d = Some (normalize (adopted corpus d k))"
  by (simp add: iterate_pagerank_def initial_ranks_start iterate_loop_first_settled [OF assms])

lemma iterate_pagerank_Some:
  assumes "distinct (keys corpus)" and "iterate_pagerank corpus d = Some res"
  shows "\<exists>k. first_settled corpus d k \<and> res = normalize (adopted corpus d k)"
proof -
  from assms(2) obtain res' where run: "iterate_loop corpus d (start_rank corpus) = Some res'"
    by (auto simp: iterate_pagerank_def initial_ranks_start split: option.splits)
  then obtain k where k: "first_settled corpus d k"
    using iterate_loop_start_cases [OF assms(1)] by blast
  from iterate_pagerank_first_settled [OF assms(1) k] assms(2) k show ?thesis
    by auto
qed

section \<open>What a round computes and when the loop stops\<close>

lemma rank_of_map_key: "p \<in> set ks \<Longrightarrow> rank_of (map (\<lambda>p. (p, f p)) ks) p = f p"
  by (induction ks) (auto simp: rank_of_def)

lemma rank_of_next_rank:
  "p \<in> set (keys corpus) \<Longrightarrow> rank_of (next_rank corpus d pagerank) p = spec_new_rank corpus d pagerank p"
  by (simp add: next_rank_def rank_of_map_key)

text \<open>
  Claim C1. In a round that starts from the rank mapping \<open>pagerank\<close> (which has the keys of
  the graph, as every mapping the loop holds does), the new rank of every page \<open>p\<close> is
  \<open>(1 - d)/N\<close> plus \<open>d\<close> times the sum over all pages \<open>q\<close> of: \<open>PR(q)/N\<close> if \<open>q\<close> has no
  outbound links, else \<open>PR(q)/L(q)\<close> if \<open>q\<close> links to \<open>p\<close>, else 0. The loop stops, keeping
  \<open>pagerank\<close>, exactly when every page's rank changed by strictly less than 0.001;
  otherwise it goes on from the new ranks. The closed-universe invariant is not needed.
\<close>

theorem iterate_round:
  assumes "distinct (keys corpus)" and "keys pagerank = keys corpus"
  shows "\<exists>new_rank. compute_new_rank corpus d pagerank = Inr new_rank
     \<and> keys new_rank = keys corpus
     \<and> (\<forall>p \<in> set (keys corpus). dict_get new_rank p =
           Inr ((1 - d) / real (length corpus)
                + d * (\<Sum>(q, links)\<leftarrow>corpus.
                         if links = {||} then rank_of pagerank q / real (length corpus)
                         else if p |\<in>| links then rank_of pagerank q / real (fcard links)
                         else 0)))
     \<and> iterate_loop corpus d pagerank =
          (if \<forall>p \<in> set (keys corpus). \<bar>rank_of new_rank p - rank_of pagerank p\<bar> < 1 / 1000
           then Some (Inr pagerank)
           else iterate_loop corpus d new_rank)"
proof -
  let ?new = "next_rank corpus d pagerank"
  have new: "compute_new_rank corpus d pagerank = Inr ?new"
    using assms by (intro compute_new_rank_closed_form) simp_all
  have formula: "spec_new_rank corpus d pagerank p =
      (1 - d) / real (length corpus)
        + d * (\<Sum>(q, links)\<leftarrow>corpus.
                 if links = {||} then rank_of pagerank q / real (length corpus)
                 else if p |\<in>| links then rank_of pagerank q / real (fcard links)
                 else 0)" for p
    by (simp add: spec_new_rank_def contribution_def)
  have entries: "\<forall>p \<in> set (keys corpus). dict_get ?new p =
           Inr ((1 - d) / real (length corpus)
                + d * (\<Sum>(q, links)\<leftarrow>corpus.
                         if links = {||} then rank_of pagerank q / real (length corpus)
                         else if p |\<in>| links then rank_of pagerank q / real (fcard links)
                         else 0))"
    by (simp add: dict_get_rank_of rank_of_next_rank formula)
  have loop: "iterate_loop corpus d pagerank =
          (if \<forall>p \<in> set (keys corpus). \<bar>rank_of ?new p - rank_of pagerank p\<bar> < 1 / 1000
           then Some (Inr pagerank)
           else iterate_loop corpus d ?new)"
    using iterate_loop_step [OF assms, of d]
    by (simp add: settled_def assms(2) convergence_threshold_def)
  show ?thesis
    using new entries loop by (intro exI [of _ ?new]) simp
qed

theorem iterate_round_witness:
  "\<exists>new_rank. compute_new_rank [(''A'', {||}), (''B'', {|''A''|})] (1 / 2)
        [(''A'', 1 / 2), (''B'', 1 / 2)] = Inr new_rank
     \<and> dict_get new_rank ''A'' = Inr (5 / 8) \<and> dict_get new_rank ''B'' = Inr (3 / 8)
     \<and> iterate_loop [(''A'', {||}), (''B'', {|''A''|})] (1 / 2) [(''A'', 1 / 2), (''B'', 1 / 2)]
        = iterate_loop [(''A'', {||}), (''B'', {|''A''|})] (1 / 2) new_rank"
proof -
  have fc: "fcard {|''A''|} = 1"
    by (simp add: fcard_finsert_if fcard_fempty)
  obtain new_rank where run: "compute_new_rank [(''A'', {||}), (''B'', {|''A''|})] (1 / 2)
        [(''A'', 1 / 2), (''B'', 1 / 2)] = Inr new_rank"
    and A: "dict_get new_rank ''A'' = Inr (5 / 8)"
    and B: "dict_get new_rank ''B'' = Inr (3 / 8)"
    and loop: "iterate_loop [(''A'', {||}), (''B'', {|''A''|})] (1 / 2) [(''A'', 1 / 2), (''B'', 1 / 2)]
       = (if \<forall>p \<in> set (keys [(''A'', {||}), (''B'', {|''A''|})]).
              \<bar>rank_of new_rank p - rank_of [(''A'', 1 / 2), (''B'', 1 / 2)] p\<bar> < 1 / 1000
          then Some (Inr [(''A'', 1 / 2), (''B'', 1 / 2)])
          else iterate_loop [(''A'', {||}), (''B'', {|''A''|})] (1 / 2) new_rank)"
    using iterate_round [of "[(''A'', {||}), (''B'', {|''A''|})]" "[(''A'', 1 / 2), (''B'', 1 / 2)]" "1 / 2"]
    by (auto simp: rank_of_def fc)
  have "rank_of new_rank ''A'' = 5 / 8"
    using A by (simp add: dict_get_def rank_of_def split: option.splits)
  then have "\<not> (\<forall>p \<in> set (keys [(''A'', {||}), (''B'', {|''A''|})]).
              \<bar>rank_of new_rank p - rank_of [(''A'', 1 / 2), (''B'', 1 / 2)] p\<bar> < 1 / 1000)"
    by (simp add: rank_of_def)
  with run A B loop show ?thesis
    by auto
qed

section \<open>The loop, round by round\<close>

lemma repeats_step:
  "repeats corpus d pagerank new_rank \<Longrightarrow>
     iterate_loop corpus d pagerank = iterate_loop corpus d new_rank"
  by (subst iterate_loop.simps) (simp add: repeats_def)

lemma breaks_step:
  "breaks corpus d pagerank new_rank \<Longrightarrow> iterate_loop corpus d pagerank = Some (Inr pagerank)"
  by (subst iterate_loop.simps) (simp add: breaks_def)

lemma repeats_functional:
  "repeats corpus d pagerank x \<Longrightarrow> repeats corpus d pagerank y \<Longrightarrow> x = y"
  by (simp add: repeats_def)

lemma repeats_chain:
  "(repeats corpus d)\<^sup>*\<^sup>* pagerank pagerank' \<Longrightarrow>
     iterate_loop corpus d pagerank = iterate_loop corpus d pagerank'"
  by (induction rule: rtranclp_induct) (simp_all add: repeats_step)

lemma no_repeat_returns:
  "\<not> (\<exists>new_rank. repeats corpus d pagerank new_rank) \<Longrightarrow> iterate_loop corpus d pagerank \<noteq> None"
  by (subst iterate_loop.simps) (auto simp: repeats_def split: sum.splits)

lemma iterate_loop_Some_reaches:
  assumes "iterate_loop corpus d pagerank = Some res"
  shows "\<exists>pagerank'. (repeats corpus d)\<^sup>*\<^sup>* pagerank pagerank'
           \<and> \<not> (\<exists>new_rank. repeats corpus d pagerank' new_rank)
           \<and> (\<forall>r. res = Inr r \<longrightarrow> r = pagerank' \<and> (\<exists>new_rank. breaks corpus d pagerank' new_rank))"
proof (rule iterate_loop.raw_induct
    [where P = "\<lambda>corpus d pagerank res.
       \<exists>pagerank'. (repeats corpus d)\<^sup>*\<^sup>* pagerank pagerank'
           \<and> \<not> (\<exists>new_rank. repeats corpus d pagerank' new_rank)
           \<and> (\<forall>r. res = Inr r \<longrightarrow> r = pagerank' \<and> (\<exists>new_rank. breaks corpus d pagerank' new_rank))",
      OF _ assms])
  fix loop :: "'a corpus \<Rightarrow> real \<Rightarrow> 'a ranks \<Rightarrow> (py_error + 'a ranks) option"
    and corpus d pagerank res
  assume IH: "\<And>corpus d pagerank res. loop corpus d pagerank = Some res \<Longrightarrow>
      \<exists>pagerank'. (repeats corpus d)\<^sup>*\<^sup>* pagerank pagerank'
           \<and> \<not> (\<exists>new_rank. repeats corpus d pagerank' new_rank)
           \<and> (\<forall>r. res = Inr r \<longrightarrow> r = pagerank' \<and> (\<exists>new_rank. breaks corpus d pagerank' new_rank))"
    and step: "(case compute_new_rank corpus d pagerank of
        Inl e \<Rightarrow> Some (Inl e)
      | Inr new_rank \<Rightarrow>
          (case all_converged (keys pagerank) new_rank pagerank convergence_threshold of
             Inl e \<Rightarrow> Some (Inl e)
           | Inr stop \<Rightarrow>
               if stop then Some (Inr pagerank) else loop corpus d new_rank)) = Some res"
  show "\<exists>pagerank'. (repeats corpus d)\<^sup>*\<^sup>* pagerank pagerank'
           \<and> \<not> (\<exists>new_rank. repeats corpus d pagerank' new_rank)
           \<and> (\<forall>r. res = Inr r \<longrightarrow> r = pagerank' \<and> (\<exists>new_rank. breaks corpus d pagerank' new_rank))"
  proof (cases "\<exists>new_rank. repeats corpus d pagerank new_rank")
    case True
    then obtain new_rank where rep: "repeats corpus d pagerank new_rank"
      by blast
    with step have "loop corpus d new_rank = Some res"
      by (simp add: repeats_def)
    from IH [OF this] obtain pagerank' where "(repeats corpus d)\<^sup>*\<^sup>* new_rank pagerank'"
      and rest: "\<not> (\<exists>new_rank. repeats corpus d pagerank' new_rank)"
        "\<forall>r. res = Inr r \<longrightarrow> r = pagerank' \<and> (\<exists>new_rank. breaks corpus d pagerank' new_rank)"
      by blast
    with rep have "(repeats corpus d)\<^sup>*\<^sup>* pagerank pagerank'"
      by (simp add: converse_rtranclp_into_rtranclp)
    with rest show ?thesis
      by blast
  next
    case False
    have "\<forall>r. res = Inr r \<longrightarrow> r = pagerank \<and> (\<exists>new_rank. breaks corpus d pagerank new_rank)"
      using step False by (auto simp: repeats_def breaks_def split: sum.splits if_splits)
    with False show ?thesis
      by blast
  qed
qed

lemma cycle_stays:
  assumes "(repeats corpus d)\<^sup>+\<^sup>+ pagerank pagerank"
    and "(repeats corpus d)\<^sup>*\<^sup>* pagerank x"
  shows "(repeats corpus d)\<^sup>+\<^sup>+ x pagerank"
  using assms(2)
proof (induction rule: rtranclp_induct)
  case base
  show ?case by (rule assms(1))
next
  case (step y z)
  from step.IH obtain y' where first: "repeats corpus d y y'"
    and rest: "(repeats corpus d)\<^sup>*\<^sup>* y' pagerank"
    by (auto dest: tranclpD)
  from repeats_functional [OF first step.hyps(2)] have "y' = z" .
  with rest have "(repeats corpus d)\<^sup>*\<^sup>* z pagerank"
    by simp
  then show ?case
  proof (cases rule: rtranclp.cases)
    case rtrancl_refl
    then show ?thesis
      using assms(1) by simp
  next
    case (rtrancl_into_rtrancl b)
    then show ?thesis
      by (simp add: rtranclp_into_tranclp1)
  qed
qed

lemma cycle_never_returns:
  assumes "(repeats corpus d)\<^sup>+\<^sup>+ pagerank pagerank"
  shows "iterate_loop corpus d pagerank = None"
proof (rule ccontr)
  assume "iterate_loop corpus d pagerank \<noteq> None"
  then obtain res where "iterate_loop corpus d pagerank = Some res"
    by auto
  from iterate_loop_Some_reaches [OF this] obtain x
    where reach: "(repeats corpus d)\<^sup>*\<^sup>* pagerank x"
      and stuck: "\<not> (\<exists>new_rank. repeats corpus d x new_rank)"
    by blast
  from cycle_stays [OF assms reach] obtain y where "repeats corpus d x y"
    by (auto dest: tranclpD)
  with stuck show False
    by blast
qed




section \<open>A loop that never ends\<close>

lemma iterate_pagerank_never_settled:
  assumes "distinct (keys corpus)"
    and "\<forall>j. \<not> settled (adopted corpus d (Suc j)) (adopted corpus d j)"
  shows "iterate_pagerank corpus d = None"
  by (simp add: iterate_pagerank_def initial_ranks_start iterate_loop_never_settled [OF assms])

lemma iterate_pagerank_oscillates:
  assumes "distinct (keys corpus)"
    and "next_rank corpus d (start_rank corpus) = s1"
    and "next_rank corpus d s1 = s2"
    and "next_rank corpus d s2 = s1"
    and "\<not> settled s1 (start_rank corpus)"
    and "\<not> settled s2 s1"
    and "\<not> settled s1 s2"
  shows "iterate_pagerank corpus d = None"
proof -
  have odd_even: "adopted corpus d (Suc (2 * n)) = s1 \<and> adopted corpus d (Suc (Suc (2 * n))) = s2"
    for n
    by (induction n) (simp_all add: adopted_Suc adopted_0 assms(2,3,4))
  have "\<not> settled (adopted corpus d (Suc j)) (adopted corpus d j)" for j
  proof (cases j)
    case 0
    then show ?thesis
      using odd_even [of 0] assms(5) by (simp add: adopted_0)
  next
    case (Suc i)
    show ?thesis
    proof (cases "even i")
      case True
      then obtain n where "i = 2 * n"
        by (auto elim: evenE)
      then show ?thesis
        using odd_even [of n] assms(6) by (simp add: Suc)
    next
      case False
      then obtain n where "i = Suc (2 * n)"
        by (auto elim: oddE)
      then show ?thesis
        using odd_even [of n] odd_even [of "Suc n"] assms(7) by (simp add: Suc)
    qed
  qed
  then show ?thesis
    by (intro iterate_pagerank_never_settled [OF assms(1)]) simp
qed

text \<open>
  Claim C8 says that the loop is guarded and ends on every input. It has no guard: on the
  closed graph \<^verbatim>\<open>{"A": {"B"}, "B": {"A"}, "C": {"A"}}\<close> with damping 1 the ranks of \<open>A\<close>
  and \<open>B\<close> swap between \<open>2/3\<close> and \<open>1/3\<close> in every round, the test never passes and the
  call never returns.
\<close>

theorem iterate_pagerank_no_cap_counterexample:
  "iterate_pagerank [(''A'', {|''B''|}), (''B'', {|''A''|}), (''C'', {|''A''|})] 1 = None"
proof -
  let ?g = "[(''A'', {|''B''|}), (''B'', {|''A''|}), (''C'', {|''A''|})] :: string corpus"
  have fc: "fcard {|''A''|} = 1" "fcard {|''B''|} = 1"
    by (simp_all add: fcard_finsert_if fcard_fempty)
  have dist: "distinct (keys ?g)"
    by simp
  have s0: "start_rank ?g = [(''A'', 1 / 3), (''B'', 1 / 3), (''C'', 1 / 3)]"
    by (simp add: start_rank_def)
  have n0: "next_rank ?g 1 (start_rank ?g) = [(''A'', 2 / 3), (''B'', 1 / 3), (''C'', 0)]"
    by (simp add: s0 next_rank_def spec_new_rank_def contribution_def rank_of_def fc)
  have n1: "next_rank ?g 1 [(''A'', 2 / 3), (''B'', 1 / 3), (''C'', 0)]
              = [(''A'', 1 / 3), (''B'', 2 / 3), (''C'', 0)]"
    by (simp add: next_rank_def spec_new_rank_def contribution_def rank_of_def fc)
  have n2: "next_rank ?g 1 [(''A'', 1 / 3), (''B'', 2 / 3), (''C'', 0)]
              = [(''A'', 2 / 3), (''B'', 1 / 3), (''C'', 0)]"
    by (simp add: next_rank_def spec_new_rank_def contribution_def rank_of_def fc)
  have t0: "\<not> settled [(''A'', 2 / 3), (''B'', 1 / 3), (''C'', 0)] (start_rank ?g)"
    by (simp add: s0 settled_def rank_of_def convergence_threshold_def)
  have t1: "\<not> settled [(''A'', 1 / 3), (''B'', 2 / 3), (''C'', 0)]
                [(''A'', 2 / 3), (''B'', 1 / 3), (''C'', 0 :: real)]"
    by (simp add: settled_def rank_of_def convergence_threshold_def)
  have t2: "\<not> settled [(''A'', 2 / 3), (''B'', 1 / 3), (''C'', 0)]
                [(''A'', 1 / 3), (''B'', 2 / 3), (''C'', 0 :: real)]"
    by (simp add: settled_def rank_of_def convergence_threshold_def)
  show ?thesis
    by (rule iterate_pagerank_oscillates [OF dist n0 n1 n2 t0 t1 t2])
qed

text \<open>
  Claim C8, as the code has it. The loop has no guard: a round whose convergence test
  fails is always followed by another round, however many have run. So a call that comes
  back to a mapping it has held before never returns, and a call returns exactly when it
  reaches a round that is not followed by another one (the test passes, or an exception
  is raised).
\<close>

theorem iterate_loop_has_no_cap:
  "(repeats corpus d pagerank new_rank \<longrightarrow>
      iterate_loop corpus d pagerank = iterate_loop corpus d new_rank)
   \<and> ((repeats corpus d)\<^sup>+\<^sup>+ pagerank pagerank \<longrightarrow> iterate_loop corpus d pagerank = None)
   \<and> (iterate_loop corpus d pagerank \<noteq> None \<longleftrightarrow>
        (\<exists>pagerank'. (repeats corpus d)\<^sup>*\<^sup>* pagerank pagerank'
           \<and> \<not> (\<exists>new_rank. repeats corpus d pagerank' new_rank)))
   \<and> (\<forall>pagerank0. initial_ranks (keys corpus) (length corpus) = Inr pagerank0 \<longrightarrow>
        (iterate_pagerank corpus d = None \<longleftrightarrow> iterate_loop corpus d pagerank0 = None))"
proof (intro conjI impI allI)
  assume "repeats corpus d pagerank new_rank"
  then show "iterate_loop corpus d pagerank = iterate_loop corpus d new_rank"
    by (rule repeats_step)
next
  assume "(repeats corpus d)\<^sup>+\<^sup>+ pagerank pagerank"
  then show "iterate_loop corpus d pagerank = None"
    by (rule cycle_never_returns)
next
  show "iterate_loop corpus d pagerank \<noteq> None \<longleftrightarrow>
        (\<exists>pagerank'. (repeats corpus d)\<^sup>*\<^sup>* pagerank pagerank'
           \<and> \<not> (\<exists>new_rank. repeats corpus d pagerank' new_rank))"
  proof
    assume "iterate_loop corpus d pagerank \<noteq> None"
    then obtain res where "iterate_loop corpus d pagerank = Some res"
      by auto
    from iterate_loop_Some_reaches [OF this]
    show "\<exists>pagerank'. (repeats corpus d)\<^sup>*\<^sup>* pagerank pagerank'
           \<and> \<not> (\<exists>new_rank. repeats corpus d pagerank' new_rank)"
      by blast
  next
    assume "\<exists>pagerank'. (repeats corpus d)\<^sup>*\<^sup>* pagerank pagerank'
           \<and> \<not> (\<exists>new_rank. repeats corpus d pagerank' new_rank)"
    then obtain pagerank' where reach: "(repeats corpus d)\<^sup>*\<^sup>* pagerank pagerank'"
      and stuck: "\<not> (\<exists>new_rank. repeats corpus d pagerank' new_rank)"
      by blast
    from no_repeat_returns [OF stuck] repeats_chain [OF reach]
    show "iterate_loop corpus d pagerank \<noteq> None"
      by simp
  qed
next
  fix pagerank0
  assume "initial_ranks (keys corpus) (length corpus) = Inr pagerank0"
  then show "iterate_pagerank corpus d = None \<longleftrightarrow> iterate_loop corpus d pagerank0 = None"
    by (auto simp: iterate_pagerank_def split: option.splits sum.splits)
qed

theorem iterate_loop_has_no_cap_witness:
  "repeats [(''A'', {||}), (''B'', {|''A''|})] (1 / 2)
     [(''A'', 1 / 2), (''B'', 1 / 2)] [(''A'', 5 / 8), (''B'', 3 / 8)]
   \<and> iterate_loop [(''A'', {||}), (''B'', {|''A''|})] (1 / 2) [(''A'', 1 / 2), (''B'', 1 / 2)]
     = iterate_loop [(''A'', {||}), (''B'', {|''A''|})] (1 / 2) [(''A'', 5 / 8), (''B'', 3 / 8)]"
proof -
  let ?g = "[(''A'', {||}), (''B'', {|''A''|})] :: string corpus"
  let ?s0 = "[(''A'', 1 / 2), (''B'', 1 / 2)] :: string ranks"
  let ?s1 = "[(''A'', 5 / 8), (''B'', 3 / 8)] :: string ranks"
  have fc: "fcard {|''A''|} = 1"
    by (simp add: fcard_finsert_if fcard_fempty)
  have new: "compute_new_rank ?g (1 / 2) ?s0 = Inr ?s1"
    by (simp add: compute_new_rank_closed_form next_rank_def spec_new_rank_def
        contribution_def rank_of_def fc)
  have "all_converged (keys ?s0) ?s1 ?s0 convergence_threshold
          = Inr (\<forall>p \<in> set (keys ?s0). \<bar>rank_of ?s1 p - rank_of ?s0 p\<bar> < convergence_threshold)"
    by (rule all_converged_closed_form) simp_all
  then have test: "all_converged (keys ?s0) ?s1 ?s0 convergence_threshold = Inr False"
    by (simp add: rank_of_def convergence_threshold_def)
  have rep: "repeats ?g (1 / 2) ?s0 ?s1"
    unfolding repeats_def using new test by blast
  with iterate_loop_has_no_cap [of ?g "1 / 2" ?s0 ?s1] show ?thesis
    by blast
qed

section \<open>The weight of a link\<close>

lemma contribution_weight:
  "contribution N x p entry = link_weight N p entry * rank_of x (fst entry)"
  by (cases entry) (simp add: contribution_def link_weight_def)


section \<open>Sums of rank mappings\<close>

lemma dict_values_adopted:
  "dict_values (adopted corpus d k) = map (rank_of (adopted corpus d k)) (keys corpus)"
proof (cases k)
  case 0
  then show ?thesis
    by (simp add: adopted_0 start_rank_def rank_of_map_key)
next
  case (Suc j)
  then show ?thesis
    by (simp add: adopted_Suc next_rank_def rank_of_map_key)
qed


lemma keys_scaled [simp]: "keys (scaled x) = keys x"
  by (simp add: scaled_def keys_def comp_def case_prod_unfold)






section \<open>The weighted draw\<close>

lemma length_accumulate_from [simp]: "length (accumulate_from acc ws) = length ws"
  by (induction ws arbitrary: acc) simp_all

lemma accumulate_from_Nil_iff [simp]: "accumulate_from acc ws = [] \<longleftrightarrow> ws = []"
  by (cases ws) simp_all


lemma length_accumulate [simp]: "length (accumulate ws) = length ws"
  by (cases ws) (simp_all add: accumulate_def)

lemma accumulate_Nil_iff [simp]: "accumulate ws = [] \<longleftrightarrow> ws = []"
  by (cases ws) (simp_all add: accumulate_def)




lemma random_choice_mem:
  assumes "seq \<noteq> []" and "0 \<le> u" and "u < 1"
  shows "\<exists>page \<in> set seq. random_choice seq u = Inr page"
proof -
  let ?n = "real (length seq)"
  have n: "0 < ?n"
    using assms(1) by simp
  have "u * ?n < ?n"
    using assms(3) n by simp
  then have "\<lfloor>u * ?n\<rfloor> < int (length seq)"
    by (simp add: floor_less_iff)
  moreover have "0 \<le> \<lfloor>u * ?n\<rfloor>"
    using assms(2) by simp
  ultimately have "nat \<lfloor>u * ?n\<rfloor> < length seq"
    by linarith
  then show ?thesis
    using assms(1) by (simp add: random_choice_def Let_def)
qed

section \<open>The sampling loop\<close>



lemma dict_values_Cons [simp]: "dict_values (x # d) = snd x # dict_values d"
  by (simp add: dict_values_def)

lemma dict_values_Nil [simp]: "dict_values [] = []"
  by (simp add: dict_values_def)





section \<open>Both estimators return distributions\<close>




section \<open>Invalid arguments are not rejected\<close>

text \<open>
  Claim C7 says that invalid input is rejected at the entry of an estimator. Neither
  estimator checks anything: on the empty graph \<^verbatim>\<open>iterate_pagerank\<close> runs one round over no
  pages, passes the convergence test and returns the empty mapping.
\<close>

theorem iterate_pagerank_empty_graph_counterexample:
  "iterate_pagerank ([] :: string corpus) (85 / 100) = Some (Inr [])"
  by (simp add: iterate_pagerank_def iterate_loop.simps compute_new_rank_def normalize_def)

lemma normalize_counts_zero:
  "ks \<noteq> [] \<Longrightarrow> normalize_counts (map (\<lambda>p. (p, 0)) ks) 0 = Inl ZeroDivisionError"
  by (cases ks) (simp_all add: truediv_def)

lemma normalize_counts_zeros:
  "n \<noteq> 0 \<Longrightarrow> normalize_counts (map (\<lambda>p. (p, 0)) ks) n = Inr (map (\<lambda>p. (p, 0)) ks)"
  by (induction ks) (simp_all add: truediv_def)

lemma sample_pagerank_damping_two:
  "sample_pagerank [(''A'', {|''B''|}), (''B'', {|''A''|})] 2 1 (\<lambda>i. 0)
     = Inr [(''A'', 1), (''B'', 0)]"
proof -
  let ?g = "[(''A'', {|''B''|}), (''B'', {|''A''|})] :: string corpus"
  have fc: "fcard {|''B''|} = 1"
    by (simp add: fcard_finsert_if fcard_fempty)
  have get: "dict_get ?g ''A'' = Inr {|''B''|}"
    by (simp add: dict_get_def)
  have model: "transition_model ?g ''A'' 2 = Inr [(''A'', - 1 / 2), (''B'', 3 / 2)]"
    using transition_model_closed_form [OF _ get, of 2] by (simp add: linked_prob_def fc)
  have draw: "random_choices [''A'', ''B''] [- 1 / 2, 3 / 2 :: real] 0 = Inr ''B''"
    by (simp add: random_choices_def accumulate_def bisect.simps)
  have first: "random_choice (keys ?g) 0 = Inr ''A''"
    by (simp add: random_choice_def)
  have loop: "sample_loop (Suc 0) ?g 2 (\<lambda>i. 0) 1 [(''A'', 0), (''B'', 0)] ''A''
                = Inr [(''A'', 1), (''B'', 0)]"
    using model draw by (simp add: dict_get_def keys_def dict_values_def)
  show ?thesis
    using first loop by (simp add: sample_pagerank_def truediv_def)
qed

lemma iterate_pagerank_dangling:
  "iterate_pagerank [(''A'', {|''B''|})] (1 / 2) = Some (Inr [(''A'', 1)])"
proof -
  let ?g = "[(''A'', {|''B''|})] :: string corpus"
  let ?s0 = "[(''A'', 1)] :: string ranks"
  let ?s1 = "[(''A'', 1 / 2)] :: string ranks"
  have "start_rank ?g = ?s0"
    by (simp add: start_rank_def)
  then have init: "initial_ranks (keys ?g) (length ?g) = Inr ?s0"
    by (simp only: initial_ranks_start)
  have new0: "compute_new_rank ?g (1 / 2) ?s0 = Inr ?s1"
    by (simp add: compute_new_rank_closed_form next_rank_def spec_new_rank_def
        contribution_def rank_of_def)
  have new1: "compute_new_rank ?g (1 / 2) ?s1 = Inr ?s1"
    by (simp add: compute_new_rank_closed_form next_rank_def spec_new_rank_def
        contribution_def rank_of_def)
  have "all_converged (keys ?s0) ?s1 ?s0 convergence_threshold
          = Inr (\<forall>p \<in> set (keys ?s0). \<bar>rank_of ?s1 p - rank_of ?s0 p\<bar> < convergence_threshold)"
    by (rule all_converged_closed_form) simp_all
  then have test0: "all_converged (keys ?s0) ?s1 ?s0 convergence_threshold = Inr False"
    by (simp add: rank_of_def convergence_threshold_def)
  have "all_converged (keys ?s1) ?s1 ?s1 convergence_threshold
          = Inr (\<forall>p \<in> set (keys ?s1). \<bar>rank_of ?s1 p - rank_of ?s1 p\<bar> < convergence_threshold)"
    by (rule all_converged_closed_form) simp_all
  then have test1: "all_converged (keys ?s1) ?s1 ?s1 convergence_threshold = Inr True"
    by (simp add: rank_of_def convergence_threshold_def)
  have "iterate_loop ?g (1 / 2) ?s0 = iterate_loop ?g (1 / 2) ?s1"
    by (rule repeats_step) (simp only: repeats_def new0 test0 simp_thms)
  also have "\<dots> = Some (Inr ?s1)"
    by (rule breaks_step [of _ _ _ ?s1]) (simp only: breaks_def new1 test1 simp_thms)
  finally have loop: "iterate_loop ?g (1 / 2) ?s0 = Some (Inr ?s1)" .
  have norm: "normalize ?s1 = Inr ?s0"
    by (simp add: normalize_closed_form scaled_def dict_values_def)
  show ?thesis
    by (simp only: iterate_pagerank_def Let_def init loop norm sum.case option.case)
qed

text \<open>
  Claim C7, as the code has it. The estimators do not validate their arguments; what an
  invalid argument does depends on where the computation first trips over it. On the empty
  graph \<^verbatim>\<open>sample_pagerank\<close> fails in \<^verbatim>\<open>random.choice\<close> with \<^verbatim>\<open>IndexError\<close> and
  \<^verbatim>\<open>iterate_pagerank\<close> returns the empty mapping. With sample count 0 \<^verbatim>\<open>sample_pagerank\<close>
  fails only in the final division, with \<^verbatim>\<open>ZeroDivisionError\<close>; with a negative sample
  count it returns the mapping that gives every page 0. Damping 2 is accepted:
  \<^verbatim>\<open>sample_pagerank({"A": {"B"}, "B": {"A"}}, 2, 1)\<close> returns a mapping. A neighbour that is
  not a page is accepted: \<^verbatim>\<open>iterate_pagerank({"A": {"B"}}, 0.5)\<close> returns \<^verbatim>\<open>{"A": 1.0}\<close>. A
  failure is an exception, which carries no mapping.
\<close>

theorem estimators_do_not_validate:
  "sample_pagerank [] d n rng = Inl IndexError
   \<and> iterate_pagerank [] d = Some (Inr [])
   \<and> (corpus \<noteq> [] \<and> 0 \<le> rng 0 \<and> rng 0 < 1 \<longrightarrow>
        sample_pagerank corpus d 0 rng = Inl ZeroDivisionError)
   \<and> (corpus \<noteq> [] \<and> 0 \<le> rng 0 \<and> rng 0 < 1 \<and> n < 0 \<longrightarrow>
        sample_pagerank corpus d n rng = Inr (map (\<lambda>p. (p, 0)) (keys corpus)))
   \<and> sample_pagerank [(''A'', {|''B''|}), (''B'', {|''A''|})] 2 1 (\<lambda>i. 0)
        = Inr [(''A'', 1), (''B'', 0)]
   \<and> iterate_pagerank [(''A'', {|''B''|})] (1 / 2) = Some (Inr [(''A'', 1)])"
proof (intro conjI impI)
  show "sample_pagerank [] d n rng = Inl IndexError"
    by (simp add: sample_pagerank_def random_choice_def)
  show "iterate_pagerank [] d = Some (Inr [])"
    by (simp add: iterate_pagerank_def iterate_loop.simps compute_new_rank_def normalize_def)
  show "sample_pagerank [(''A'', {|''B''|}), (''B'', {|''A''|})] 2 1 (\<lambda>i. 0)
        = Inr [(''A'', 1), (''B'', 0)]"
    by (rule sample_pagerank_damping_two)
  show "iterate_pagerank [(''A'', {|''B''|})] (1 / 2) = Some (Inr [(''A'', 1)])"
    by (rule iterate_pagerank_dangling)
next
  assume a: "corpus \<noteq> [] \<and> 0 \<le> rng 0 \<and> rng 0 < 1"
  then have "keys corpus \<noteq> []"
    by (simp add: keys_def)
  from random_choice_mem [OF this, of "rng 0"] a obtain page
    where "random_choice (keys corpus) (rng 0) = Inr page"
    by blast
  then show "sample_pagerank corpus d 0 rng = Inl ZeroDivisionError"
    using \<open>keys corpus \<noteq> []\<close> by (simp add: sample_pagerank_def normalize_counts_zero)
next
  assume a: "corpus \<noteq> [] \<and> 0 \<le> rng 0 \<and> rng 0 < 1 \<and> n < 0"
  then have "keys corpus \<noteq> []"
    by (simp add: keys_def)
  from random_choice_mem [OF this, of "rng 0"] a obtain page
    where "random_choice (keys corpus) (rng 0) = Inr page"
    by blast
  then show "sample_pagerank corpus d n rng = Inr (map (\<lambda>p. (p, 0)) (keys corpus))"
    using a by (simp add: sample_pagerank_def normalize_counts_zeros)
qed

theorem estimators_do_not_validate_witness:
  "sample_pagerank [(''A'', {|''B''|}), (''B'', {|''A''|})] (85 / 100) 0 (\<lambda>i. 0)
     = Inl ZeroDivisionError
   \<and> sample_pagerank [(''A'', {|''B''|}), (''B'', {|''A''|})] (85 / 100) (- 1) (\<lambda>i. 0)
     = Inr [(''A'', 0), (''B'', 0)]"
proof -
  from estimators_do_not_validate
    [of "85 / 100" "- 1" "\<lambda>i. 0" "[(''A'', {|''B''|}), (''B'', {|''A''|})]"]
  show ?thesis
    by auto
qed

section \<open>The iterative estimator is deterministic\<close>

lemma map_of_rank_of:
  "map_of x p = (if p \<in> set (keys x) then Some (rank_of x p) else None)"
proof (cases "map_of x p")
  case None
  then show ?thesis
    by (simp add: keys_def map_of_eq_None_iff)
next
  case (Some v)
  then have "(p, v) \<in> set x"
    by (rule map_of_SomeD)
  then have "p \<in> set (keys x)"
    by (force simp: keys_def)
  with Some show ?thesis
    by (simp add: rank_of_def)
qed

lemma rank_of_outside: "p \<notin> set (keys x) \<Longrightarrow> rank_of x p = 0"
  by (simp add: rank_of_def keys_def map_of_eq_None_iff [THEN iffD2])

lemma same_dict_entries:
  assumes "distinct (keys corpus)" and "distinct (keys corpus')"
    and "map_of corpus = map_of corpus'"
  shows "set corpus = set corpus'" and "distinct corpus" and "distinct corpus'"
    and "length corpus = length corpus'" and "set (keys corpus) = set (keys corpus')"
proof -
  show entries: "set corpus = set corpus'"
    using assms by (simp add: keys_def map_of_inject_set)
  show d: "distinct corpus" and d': "distinct corpus'"
    using assms(1,2) by (simp_all add: keys_def distinct_map)
  show "length corpus = length corpus'"
    using distinct_card [OF d] distinct_card [OF d'] entries by simp
  show "set (keys corpus) = set (keys corpus')"
    using entries by (simp add: keys_def)
qed

lemma same_dict_sum:
  assumes "distinct (keys corpus)" and "distinct (keys corpus')"
    and "map_of corpus = map_of corpus'"
  shows "(\<Sum>entry\<leftarrow>corpus. (f entry :: real)) = (\<Sum>entry\<leftarrow>corpus'. f entry)"
  using same_dict_entries(1,2,3) [OF assms]
  by (simp add: sum_list_distinct_conv_sum_set)

lemma contribution_cong:
  "rank_of x = rank_of x' \<Longrightarrow> contribution N x p entry = contribution N x' p entry"
  by (simp add: contribution_weight)

lemma spec_new_rank_same_dict:
  assumes "distinct (keys corpus)" and "distinct (keys corpus')"
    and "map_of corpus = map_of corpus'" and "rank_of x = rank_of x'"
  shows "spec_new_rank corpus d x p = spec_new_rank corpus' d x' p"
proof -
  have "(\<Sum>entry\<leftarrow>corpus. contribution (length corpus) x p entry)
          = (\<Sum>entry\<leftarrow>corpus'. contribution (length corpus) x p entry)"
    by (rule same_dict_sum [OF assms(1,2,3)])
  then show ?thesis
    by (simp add: spec_new_rank_def same_dict_entries(4) [OF assms(1,2,3)]
        contribution_cong [OF assms(4)])
qed

lemma rank_of_next_rank_total:
  "rank_of (next_rank corpus d x) p =
     (if p \<in> set (keys corpus) then spec_new_rank corpus d x p else 0)"
  by (simp add: rank_of_next_rank rank_of_outside)

lemma rank_of_start_rank:
  "rank_of (start_rank corpus) p =
     (if p \<in> set (keys corpus) then 1 / real (length corpus) else 0)"
  by (simp add: rank_of_outside) (simp add: start_rank_def rank_of_map_key)

lemma adopted_same_dict:
  assumes "distinct (keys corpus)" and "distinct (keys corpus')"
    and "map_of corpus = map_of corpus'"
  shows "rank_of (adopted corpus d k) = rank_of (adopted corpus' d k)"
proof (induction k)
  case 0
  show ?case
    by (rule ext)
      (simp add: adopted_0 rank_of_start_rank same_dict_entries(4,5) [OF assms])
next
  case (Suc k)
  show ?case
    by (rule ext)
      (simp add: adopted_Suc rank_of_next_rank_total same_dict_entries(5) [OF assms]
        spec_new_rank_same_dict [OF assms Suc.IH])
qed

lemma settled_same_dict:
  assumes "distinct (keys corpus)" and "distinct (keys corpus')"
    and "map_of corpus = map_of corpus'"
  shows "settled (next_rank corpus d (adopted corpus d k)) (adopted corpus d k)
           \<longleftrightarrow> settled (next_rank corpus' d (adopted corpus' d k)) (adopted corpus' d k)"
  using adopted_same_dict [OF assms, of d "Suc k"] adopted_same_dict [OF assms, of d k]
  by (simp add: settled_def adopted_Suc [symmetric] same_dict_entries(5) [OF assms])

lemma first_settled_same_dict:
  assumes "distinct (keys corpus)" and "distinct (keys corpus')"
    and "map_of corpus = map_of corpus'"
  shows "first_settled corpus d k \<longleftrightarrow> first_settled corpus' d k"
  by (simp add: first_settled_def settled_same_dict [OF assms])

lemma sum_adopted:
  assumes "distinct (keys corpus)"
  shows "sum_list (dict_values (adopted corpus d k))
           = (\<Sum>p \<in> set (keys corpus). rank_of (adopted corpus d k) p)"
  by (simp add: dict_values_adopted sum_list_distinct_conv_sum_set [OF assms])

lemma map_of_scaled:
  "map_of (scaled x) p = map_option (\<lambda>v. v / sum_list (dict_values x)) (map_of x p)"
proof -
  have "map_of (map (\<lambda>(p, v). (p, v / t)) x) p = map_option (\<lambda>v. v / t) (map_of x p)" for t :: real
    by (induction x) auto
  then show ?thesis
    by (simp add: scaled_def)
qed

lemma normalize_same_dict:
  assumes "distinct (keys corpus)" and "distinct (keys corpus')"
    and "map_of corpus = map_of corpus'"
  shows "map_sum id map_of (normalize (adopted corpus d k))
           = map_sum id map_of (normalize (adopted corpus' d k))"
proof -
  let ?x = "adopted corpus d k" and ?x' = "adopted corpus' d k"
  have ranks: "rank_of ?x = rank_of ?x'"
    by (rule adopted_same_dict [OF assms])
  have ks: "set (keys corpus) = set (keys corpus')"
    by (rule same_dict_entries(5) [OF assms])
  have sum: "sum_list (dict_values ?x) = sum_list (dict_values ?x')"
    by (simp add: sum_adopted assms(1,2) ranks ks)
  have "map_of ?x = map_of ?x'"
    by (rule ext) (simp add: map_of_rank_of ranks ks)
  then have scaled: "map_of (scaled ?x) = map_of (scaled ?x')"
    by (intro ext) (simp add: map_of_scaled sum)
  have empty: "?x = [] \<longleftrightarrow> ?x' = []"
  proof -
    have "?x = [] \<longleftrightarrow> set (keys ?x) = {}"
      by (simp add: keys_def)
    also have "\<dots> \<longleftrightarrow> set (keys ?x') = {}"
      by (simp add: ks)
    also have "\<dots> \<longleftrightarrow> ?x' = []"
      by (simp add: keys_def)
    finally show ?thesis .
  qed
  show ?thesis
    using scaled empty sum
    by (simp add: normalize_closed_form [OF distinct_adopted] assms(1,2))
qed

text \<open>
  Claim C6. The result of \<^verbatim>\<open>iterate_pagerank\<close> is a function of the graph and the damping
  factor alone: the estimator takes no random source. It is even independent of the
  insertion order of the graph: two dicts that hold the same neighbour set for every page
  (equal dicts, as Python compares them) give both no result, or both the same exception,
  or both the same rank for every page. Two calls with the same dict are a special case.
\<close>

theorem iterate_pagerank_deterministic:
  assumes "distinct (keys corpus)" and "distinct (keys corpus')"
    and "map_of corpus = map_of corpus'"
  shows "map_option (map_sum id map_of) (iterate_pagerank corpus d)
           = map_option (map_sum id map_of) (iterate_pagerank corpus' d)"
proof (cases "\<exists>k. first_settled corpus d k")
  case True
  then obtain k where k: "first_settled corpus d k"
    by blast
  then have k': "first_settled corpus' d k"
    by (simp add: first_settled_same_dict [OF assms])
  show ?thesis
    by (simp add: iterate_pagerank_first_settled [OF assms(1) k]
        iterate_pagerank_first_settled [OF assms(2) k'] normalize_same_dict [OF assms])
next
  case False
  then have none: "iterate_pagerank corpus d = None"
    using iterate_pagerank_Some [OF assms(1)] by (cases "iterate_pagerank corpus d") auto
  from False have "\<not> (\<exists>k. first_settled corpus' d k)"
    by (simp add: first_settled_same_dict [OF assms])
  then have "iterate_pagerank corpus' d = None"
    using iterate_pagerank_Some [OF assms(2)] by (cases "iterate_pagerank corpus' d") auto
  with none show ?thesis
    by simp
qed

theorem iterate_pagerank_deterministic_witness:
  "map_option (map_sum id map_of)
     (iterate_pagerank [(''A'', {||}), (''B'', {|''A''|})] (85 / 100))
   = map_option (map_sum id map_of)
     (iterate_pagerank [(''B'', {|''A''|}), (''A'', {||})] (85 / 100))"
proof -
  have same: "map_of [(''A'', {||}), (''B'', {|''A''|})]
                = map_of [(''B'', {|''A''|}), (''A'', {||})]"
    by (rule ext) simp
  show ?thesis
    by (rule iterate_pagerank_deterministic [OF _ _ same]) simp_all
qed

end
